theory Spec2Isabelle
  imports
    Complex_Main
    "HOL-Library.AList"
    "HOL-Library.Multiset"
    "HOL-Library.Char_ord"
    "HOL-Library.List_Lexorder"
begin

section \<open>UID generation (packages/common/src/utils.ts)\<close>

text \<open>
  \<^verbatim>\<open>generateUid\<close> reads the wall clock (\<^verbatim>\<open>new Date()\<close>) and the module-level
  variable \<^verbatim>\<open>uidCounter\<close>.  The clock reading is an argument of the model and the
  counter is passed in and returned.  The fields of a clock reading are the values of
  the local-time getters of the JavaScript \<^verbatim>\<open>Date\<close> object.
\<close>

record DateTime =
  getFullYear :: nat
  getMonth :: nat
  getDate :: nat
  getHours :: nat
  getMinutes :: nat
  getSeconds :: nat
  getMilliseconds :: nat

definition digit_char :: "nat \<Rightarrow> char" where
  "digit_char d = ''0123456789'' ! d"

text \<open>\<^verbatim>\<open>Number.prototype.toString()\<close> on a non-negative integer: its decimal digits.\<close>

fun toString :: "nat \<Rightarrow> string" where
  "toString n = (if n < 10 then [digit_char n] else toString (n div 10) @ [digit_char (n mod 10)])"

declare toString.simps [simp del]

text \<open>\<^verbatim>\<open>String.prototype.padStart(targetLength, padString)\<close> with a one-character pad.\<close>

definition padStart :: "nat \<Rightarrow> char \<Rightarrow> string \<Rightarrow> string" where
  "padStart n c s = replicate (n - length s) c @ s"

text \<open>The template string of \<^verbatim>\<open>generateUid\<close>, for a clock reading and the updated counter.\<close>

definition uid_string :: "DateTime \<Rightarrow> nat \<Rightarrow> string" where
  "uid_string now counter =
     (let year = toString (getFullYear now);
          month = padStart 2 (CHR ''0'') (toString (getMonth now + 1));
          day = padStart 2 (CHR ''0'') (toString (getDate now));
          hours = padStart 2 (CHR ''0'') (toString (getHours now));
          minutes = padStart 2 (CHR ''0'') (toString (getMinutes now));
          seconds = padStart 2 (CHR ''0'') (toString (getSeconds now));
          milliseconds = getMilliseconds now;
          uniqueId = padStart 6 (CHR ''0'') (toString (milliseconds * 1000 + counter))
      in year @ month @ day @ ''T'' @ hours @ minutes @ seconds @ uniqueId @ ''Z'')"

text \<open>One call: the returned UID and the new value of \<^verbatim>\<open>uidCounter\<close>.\<close>

definition generateUid :: "DateTime \<Rightarrow> nat \<Rightarrow> string \<times> nat" where
  "generateUid now uidCounter =
     (let uidCounter' = (uidCounter + 1) mod 1000
      in (uid_string now uidCounter', uidCounter'))"

text \<open>Consecutive calls within one process: one clock reading per call, the counter threaded.\<close>

fun generateUids :: "DateTime list \<Rightarrow> nat \<Rightarrow> string list" where
  "generateUids [] uidCounter = []"
| "generateUids (now # nows) uidCounter =
     (case generateUid now uidCounter of (uid, uidCounter') \<Rightarrow> uid # generateUids nows uidCounter')"

definition is_digit :: "char \<Rightarrow> bool" where
  "is_digit c = (c \<in> set ''0123456789'')"

text \<open>The shape the repository's own test expects: \<^verbatim>\<open>/^\d{8}T\d{12}Z$/\<close>.\<close>

definition uid_shape :: "string \<Rightarrow> bool" where
  "uid_shape s =
     (length s = 22 \<and> list_all is_digit (take 8 s) \<and> s ! 8 = CHR ''T'' \<and>
      list_all is_digit (take 12 (drop 9 s)) \<and> s ! 21 = CHR ''Z'')"

text \<open>A clock reading of a four-digit year, with every getter in its JavaScript range.\<close>

definition clock_ok :: "DateTime \<Rightarrow> bool" where
  "clock_ok now =
     (1000 \<le> getFullYear now \<and> getFullYear now \<le> 9999 \<and> getMonth now < 12 \<and>
      1 \<le> getDate now \<and> getDate now \<le> 31 \<and> getHours now < 24 \<and>
      getMinutes now < 60 \<and> getSeconds now < 60 \<and> getMilliseconds now < 1000)"

definition noon :: DateTime where
  "noon = \<lparr>getFullYear = 2025, getMonth = 8, getDate = 27, getHours = 12,
           getMinutes = 30, getSeconds = 0, getMilliseconds = 123\<rparr>"


subsection \<open>Decimal digits\<close>

lemma toString_lt10: "n < 10 \<Longrightarrow> toString n = [digit_char n]"
  by (subst toString.simps) simp

lemma toString_ge10:
  "10 \<le> n \<Longrightarrow> toString n = toString (n div 10) @ [digit_char (n mod 10)]"
  by (subst toString.simps) simp

lemma length_toString_le: "n < 10 ^ k \<Longrightarrow> 0 < k \<Longrightarrow> length (toString n) \<le> k"
proof (induction n arbitrary: k rule: toString.induct)
  case (1 n)
  show ?case
  proof (cases "n < 10")
    case True
    then show ?thesis using 1(3) by (simp add: toString_lt10)
  next
    case False
    then obtain j where k: "k = Suc j" "0 < j"
      using 1(2,3) by (cases k; cases "k - 1") auto
    have "n div 10 < 10 ^ j"
      using 1(2) k by (simp add: less_mult_imp_div_less mult.commute)
    from 1(1)[OF False this k(2)] show ?thesis
      using False k by (simp add: toString_ge10)
  qed
qed

lemma length_toString_gt: "10 ^ k \<le> n \<Longrightarrow> k < length (toString n)"
proof (induction n arbitrary: k rule: toString.induct)
  case (1 n)
  show ?case
  proof (cases k)
    case 0
    then show ?thesis
      by (cases "n < 10") (simp_all add: toString_lt10 toString_ge10)
  next
    case (Suc j)
    have "(10::nat) ^ 1 \<le> 10 ^ k"
      unfolding Suc by (rule power_increasing) auto
    with 1(2) have big: "\<not> n < 10" by simp
    have "10 ^ j \<le> n div 10"
      using 1(2) Suc by (simp add: less_eq_div_iff_mult_less_eq mult.commute)
    from 1(1)[OF big this] show ?thesis
      using big Suc by (simp add: toString_ge10)
  qed
qed

lemma is_digit_digit_char: "d < 10 \<Longrightarrow> is_digit (digit_char d)"
proof -
  assume "d < 10"
  then have "d \<in> {0, 1, 2, 3, 4, 5, 6, 7, 8, 9}" by auto
  then show ?thesis by (auto simp: is_digit_def digit_char_def)
qed

lemma digits_toString: "list_all is_digit (toString n)"
proof (induction n rule: toString.induct)
  case (1 n)
  then show ?case
    by (cases "n < 10") (simp_all add: is_digit_digit_char toString_lt10 toString_ge10)
qed

lemma length_padStart: "length (padStart n c s) = max n (length s)"
  by (simp add: padStart_def)

lemma is_digit_zero: "is_digit (CHR ''0'')"
  by (simp add: is_digit_def)

lemma digits_padStart:
  "list_all is_digit s \<Longrightarrow> list_all is_digit (padStart n (CHR ''0'') s)"
  by (auto simp add: padStart_def list_all_iff is_digit_zero)

lemma length_pad2: "n < 100 \<Longrightarrow> length (padStart 2 c (toString n)) = 2"
  using length_toString_le[of n 2] by (simp add: length_padStart)

lemma length_pad6: "n < 1000000 \<Longrightarrow> length (padStart 6 c (toString n)) = 6"
  using length_toString_le[of n 6] by (simp add: length_padStart)

lemma length_year: "1000 \<le> n \<Longrightarrow> n \<le> 9999 \<Longrightarrow> length (toString n) = 4"
  using length_toString_le[of n 4] length_toString_gt[of 3 n] by simp

lemma uid_shape_parts:
  assumes "length Y = 4" "length M = 2" "length D = 2" "length h = 2" "length mi = 2"
    "length se = 2" "length u = 6"
    and "list_all is_digit Y" "list_all is_digit M" "list_all is_digit D"
    "list_all is_digit h" "list_all is_digit mi" "list_all is_digit se" "list_all is_digit u"
  shows "uid_shape (Y @ M @ D @ ''T'' @ h @ mi @ se @ u @ ''Z'')"
  using assms by (simp add: uid_shape_def nth_append)

lemma uid_string_shape:
  assumes "clock_ok now" "counter < 1000"
  shows "uid_shape (uid_string now counter)"
proof -
  have ms: "getMilliseconds now * 1000 + counter < 1000000"
    using assms by (simp add: clock_ok_def)
  show ?thesis
    unfolding uid_string_def Let_def
    using assms ms
    by (intro uid_shape_parts)
       (simp_all add: clock_ok_def length_pad2 length_pad6 length_year
          digits_toString digits_padStart)
qed

lemma generateUid_uid_shape: "clock_ok now \<Longrightarrow> uid_shape (fst (generateUid now uidCounter))"
  by (simp add: generateUid_def Let_def uid_string_shape)

lemma clock_ok_noon: "clock_ok noon"
  by (simp add: clock_ok_def noon_def)

subsection \<open>The counter is taken modulo 1000\<close>

lemma nth_generateUids:
  "i < length nows \<Longrightarrow>
     generateUids nows uidCounter ! i = uid_string (nows ! i) ((uidCounter + i + 1) mod 1000)"
proof (induction nows arbitrary: uidCounter i)
  case Nil
  then show ?case by simp
next
  case (Cons now nows)
  show ?case
  proof (cases i)
    case 0
    then show ?thesis by (simp add: generateUid_def Let_def)
  next
    case (Suc j)
    with Cons.prems have "j < length nows" by simp
    from Cons.IH[OF this, of "(uidCounter + 1) mod 1000"]
    have "generateUids nows ((uidCounter + 1) mod 1000) ! j =
            uid_string (nows ! j) (((uidCounter + 1) mod 1000 + j + 1) mod 1000)" .
    moreover have "((uidCounter + 1) mod 1000 + (j + 1)) mod 1000 = (uidCounter + 1 + (j + 1)) mod 1000"
      by (rule mod_add_left_eq)
    then have "((uidCounter + 1) mod 1000 + j + 1) mod 1000 = (uidCounter + i + 1) mod 1000"
      unfolding Suc by (simp add: ac_simps)
    ultimately show ?thesis
      using Suc by (simp add: generateUid_def Let_def)
  qed
qed

lemma uid_string_noon_0: "uid_string noon 0 = ''20250927T123000123000Z''"
  by (simp add: uid_string_def noon_def padStart_def toString_lt10 toString_ge10 digit_char_def)

lemma uid_string_noon_999: "uid_string noon 999 = ''20250927T123000123999Z''"
  by (simp add: uid_string_def noon_def padStart_def toString_lt10 toString_ge10 digit_char_def)


lemma generateUids_same_clock:
  assumes "i < n"
  shows "generateUids (replicate n now) uidCounter ! i = uid_string now ((uidCounter + i + 1) mod 1000)"
  using nth_generateUids[of i "replicate n now" uidCounter] assms by simp

lemma uid_noon_wraps: "uid_string noon 0 < uid_string noon 999"
  by (simp add: uid_string_noon_0 uid_string_noon_999)

subsection \<open>Claims about \<^verbatim>\<open>generateUid\<close>\<close>

text \<open>
  Claim C3: within one process every call of \<^verbatim>\<open>generateUid\<close> returns a value strictly
  greater than the previous one, and 10^6 consecutive calls return pairwise distinct
  values.  The code comments state that the counter guarantees uniqueness, but the counter
  is reduced modulo 1000 whether or not the millisecond has changed.  For calls that read
  the same millisecond of the clock, the 1000th call (index 999) returns a smaller UID
  than the 999th, and the 1001st call returns the UID of the first.
\<close>

theorem generateUid_counter_wraps:
  "generateUids (replicate 1001 noon) 0 ! 999 < generateUids (replicate 1001 noon) 0 ! 998 \<and>
   generateUids (replicate 1001 noon) 0 ! 1000 = generateUids (replicate 1001 noon) 0 ! 0"
proof -
  have a: "generateUids (replicate 1001 noon) 0 ! 999 = uid_string noon 0"
    by (subst generateUids_same_clock) simp_all
  have b: "generateUids (replicate 1001 noon) 0 ! 998 = uid_string noon 999"
    by (subst generateUids_same_clock) simp_all
  have c: "generateUids (replicate 1001 noon) 0 ! 1000 = uid_string noon 1"
    by (subst generateUids_same_clock) simp_all
  have d: "generateUids (replicate 1001 noon) 0 ! 0 = uid_string noon 1"
    by (subst generateUids_same_clock) simp_all
  show ?thesis
    unfolding a b c d using uid_noon_wraps by simp
qed

text \<open>
  Claim C9, as stated: every UID is exactly 24 characters long.  The template has
  8 + 1 + 6 + 6 + 1 = 22 characters; the claim fails at any clock reading.
\<close>

theorem generateUid_length_counterexample:
  "length (fst (generateUid noon 0)) \<noteq> 24"
  using generateUid_uid_shape[OF clock_ok_noon, of 0] by (simp add: uid_shape_def)

text \<open>
  Claim C9, amended: for a clock reading of a four-digit year, every value returned by
  \<^verbatim>\<open>generateUid\<close> is exactly 22 characters long and has the form YYYYMMDD, a literal T,
  HHMMSS, six digits (milliseconds * 1000 + counter), and a literal Z.
\<close>

theorem generateUid_format:
  "clock_ok now \<Longrightarrow>
     length (fst (generateUid now uidCounter)) = 22 \<and> uid_shape (fst (generateUid now uidCounter))"
  using generateUid_uid_shape[of now uidCounter] by (simp add: uid_shape_def)

theorem generateUid_format_witness:
  "clock_ok noon \<and> length (fst (generateUid noon 0)) = 22 \<and> uid_shape (fst (generateUid noon 0))"
  using generateUid_format[of noon 0] clock_ok_noon by simp


section \<open>JavaScript values\<close>

subsection \<open>Optional properties and object spread\<close>

text \<open>
  An optional property of an object literal is left out, present with the value
  \<^verbatim>\<open>undefined\<close>, or present with a value.  Object spread \<^verbatim>\<open>{...base, ...over}\<close> copies
  every property that \<open>over\<close> has, also one whose value is \<^verbatim>\<open>undefined\<close>, so the merged
  property may be \<^verbatim>\<open>undefined\<close> (\<open>None\<close>) although \<open>base\<close> defines it.
\<close>

datatype 'a field = Absent | Undefined | Given 'a

fun spread :: "'a option \<Rightarrow> 'a field \<Rightarrow> 'a option" where
  "spread base Absent = base"
| "spread base Undefined = None"
| "spread base (Given x) = Some x"

subsection \<open>Numbers\<close>

text \<open>
  A JavaScript number is an IEEE 754 binary64 value.  A finite one is modelled by the real
  number it denotes, and every arithmetic operation computes the exact result and rounds
  it to the nearest double, ties to the even significand: 53 significant bits, and a least
  binary exponent of -1022, below which the spacing stays at \<open>2 powi - 1074\<close>.  NaN and
  the infinities are not values of the model, and the exponent is not bounded from above.
  The operations modelled below start from finite doubles and from integer columns of the
  database (64 bits), and none of their results can overflow, except the difference of two
  scores in the comparator of the ranking; of that difference only the sign is used, and
  an overflowing difference is an infinity with the sign of the exact one.
\<close>

definition round_half_even :: "real \<Rightarrow> int" where
  "round_half_even y =
     (let f = \<lfloor>y\<rfloor>; r = y - of_int f
      in if r < 1 / 2 then f else if 1 / 2 < r then f + 1 else if even f then f else f + 1)"

text \<open>The binary exponent of the unit in the last place of a positive number.\<close>

definition ulp_exponent :: "real \<Rightarrow> int" where
  "ulp_exponent x = max \<lfloor>log 2 x\<rfloor> (- 1022) - 52"

definition round_pos :: "real \<Rightarrow> real" where
  "round_pos x = of_int (round_half_even (x / 2 powi ulp_exponent x)) * 2 powi ulp_exponent x"

definition to_double :: "real \<Rightarrow> real" where
  "to_double x = (if x = 0 then 0 else if x < 0 then - round_pos (- x) else round_pos x)"

text \<open>A number that rounding leaves as it is: every finite double is one.\<close>

definition is_double :: "real \<Rightarrow> bool" where
  "is_double x = (to_double x = x)"

definition dbl_add :: "real \<Rightarrow> real \<Rightarrow> real" where
  "dbl_add a b = to_double (a + b)"

definition dbl_sub :: "real \<Rightarrow> real \<Rightarrow> real" where
  "dbl_sub a b = to_double (a - b)"

definition dbl_mul :: "real \<Rightarrow> real \<Rightarrow> real" where
  "dbl_mul a b = to_double (a * b)"

definition dbl_div :: "real \<Rightarrow> real \<Rightarrow> real" where
  "dbl_div a b = to_double (a / b)"

text \<open>The exponent of the least positive double, and the multiples of that double.\<close>

definition denormal_exponent :: int where
  "denormal_exponent = - 1074"

definition on_grid :: "real \<Rightarrow> bool" where
  "on_grid x = (\<exists>k::int. x = of_int k * 2 powi denormal_exponent)"

subsection \<open>Rounding\<close>

lemma round_half_even_of_int: "round_half_even (of_int k) = k"
  by (simp add: round_half_even_def)

lemma round_half_even_ge_floor: "\<lfloor>y\<rfloor> \<le> round_half_even y"
  by (simp add: round_half_even_def Let_def)

lemma round_half_even_error: "\<bar>of_int (round_half_even y) - y\<bar> \<le> 1 / 2"
  unfolding round_half_even_def Let_def by (auto simp: abs_if) linarith+

lemma two_powi_pos: "0 < (2::real) powi e"
  by simp

lemma two_powi_floor_log_le:
  assumes "0 < x"
  shows "2 powi \<lfloor>log 2 x\<rfloor> \<le> x"
proof -
  have "2 powr (of_int \<lfloor>log 2 x\<rfloor>) \<le> 2 powr (log 2 x)"
    by (intro powr_mono) simp_all
  then show ?thesis using assms by (simp add: powr_real_of_int')
qed

lemma ulp_le:
  assumes "2 powi denormal_exponent \<le> x"
  shows "2 powi ulp_exponent x \<le> x"
proof -
  have pos: "0 < x" using assms two_powi_pos[of denormal_exponent] by linarith
  show ?thesis
  proof (cases "- 1022 \<le> \<lfloor>log 2 x\<rfloor>")
    case True
    then have "ulp_exponent x = \<lfloor>log 2 x\<rfloor> - 52" by (simp add: ulp_exponent_def)
    moreover have "(2::real) powi (\<lfloor>log 2 x\<rfloor> - 52) \<le> 2 powi \<lfloor>log 2 x\<rfloor>"
      by (intro power_int_increasing) simp_all
    ultimately show ?thesis using two_powi_floor_log_le[OF pos] by simp
  next
    case False
    then have "ulp_exponent x = denormal_exponent"
      by (simp add: ulp_exponent_def denormal_exponent_def)
    then show ?thesis using assms by simp
  qed
qed

lemma round_pos_pos:
  assumes "2 powi denormal_exponent \<le> x"
  shows "0 < round_pos x"
proof -
  have "1 \<le> x / 2 powi ulp_exponent x"
    using ulp_le[OF assms] by (simp add: le_divide_eq)
  then have "1 \<le> \<lfloor>x / 2 powi ulp_exponent x\<rfloor>" by linarith
  then have "1 \<le> round_half_even (x / 2 powi ulp_exponent x)"
    using round_half_even_ge_floor[of "x / 2 powi ulp_exponent x"] by linarith
  then have "0 < (of_int (round_half_even (x / 2 powi ulp_exponent x)) :: real)" by simp
  then show ?thesis by (simp add: round_pos_def)
qed

lemma to_double_zero: "to_double 0 = 0"
  by (simp add: to_double_def)

lemma to_double_pos:
  assumes "2 powi denormal_exponent \<le> x"
  shows "0 < to_double x"
proof -
  have "0 < x" using assms two_powi_pos[of denormal_exponent] by linarith
  then show ?thesis using round_pos_pos[OF assms] by (simp add: to_double_def)
qed

lemma to_double_neg:
  assumes "x \<le> - (2 powi denormal_exponent)"
  shows "to_double x < 0"
proof -
  have "x < 0" using assms two_powi_pos[of denormal_exponent] by linarith
  moreover have "0 < round_pos (- x)" using assms by (intro round_pos_pos) simp
  ultimately show ?thesis by (simp add: to_double_def)
qed

subsection \<open>Every double is a multiple of the least positive double\<close>

lemma ulp_exponent_ge: "denormal_exponent \<le> ulp_exponent x"
  by (simp add: ulp_exponent_def denormal_exponent_def)

lemma two_powi_split:
  assumes "denormal_exponent \<le> e"
  shows "(2::real) powi e = of_int (2 ^ nat (e - denormal_exponent)) * 2 powi denormal_exponent"
proof -
  have "e = int (nat (e - denormal_exponent)) + denormal_exponent"
    using assms by simp
  then have "(2::real) powi e = 2 powi (int (nat (e - denormal_exponent)) + denormal_exponent)"
    by (rule arg_cong)
  also have "\<dots> = 2 powi int (nat (e - denormal_exponent)) * 2 powi denormal_exponent"
    by (rule power_int_add) simp
  also have "(2::real) powi int (nat (e - denormal_exponent)) = of_int (2 ^ nat (e - denormal_exponent))"
    by (simp only: power_int_of_nat of_int_power of_int_numeral)
  finally show ?thesis .
qed

lemma on_grid_round_pos: "on_grid (round_pos x)"
proof -
  let ?e = "ulp_exponent x"
  have "round_pos x =
          of_int (round_half_even (x / 2 powi ?e) * 2 ^ nat (?e - denormal_exponent)) *
            2 powi denormal_exponent"
    unfolding round_pos_def by (subst (2) two_powi_split[OF ulp_exponent_ge[of x]]) simp
  then show ?thesis unfolding on_grid_def by blast
qed

lemma on_grid_minus:
  assumes "on_grid x"
  shows "on_grid (- x)"
proof -
  from assms obtain k :: int where "x = of_int k * 2 powi denormal_exponent"
    unfolding on_grid_def by blast
  then have "- x = of_int (- k) * 2 powi denormal_exponent" by simp
  then show ?thesis unfolding on_grid_def by blast
qed

lemma on_grid_to_double: "on_grid (to_double x)"
proof -
  have "on_grid 0" unfolding on_grid_def by (rule exI[of _ 0]) simp
  then show ?thesis
    by (simp add: to_double_def on_grid_round_pos on_grid_minus)
qed

lemma is_double_on_grid: "is_double x \<Longrightarrow> on_grid x"
  using on_grid_to_double[of x] by (simp add: is_double_def)

lemma on_grid_of_int: "on_grid (of_int k)"
proof -
  have "denormal_exponent \<le> 0" by (simp add: denormal_exponent_def)
  from two_powi_split[OF this]
  have "(1::real) = of_int (2 ^ nat (0 - denormal_exponent)) * 2 powi denormal_exponent"
    by (simp only: power_int_0_right)
  then have "(of_int k :: real) =
      of_int k * (of_int (2 ^ nat (0 - denormal_exponent)) * 2 powi denormal_exponent)"
    by (simp only: mult_1_right)
  also have "\<dots> = of_int (k * 2 ^ nat (0 - denormal_exponent)) * 2 powi denormal_exponent"
    by (simp only: of_int_mult mult.assoc)
  finally show ?thesis unfolding on_grid_def by blast
qed

lemma grid_gap:
  assumes "on_grid a" "on_grid b" "a < b"
  shows "2 powi denormal_exponent \<le> b - a"
proof -
  from assms obtain k l :: int where
    a: "a = of_int k * 2 powi denormal_exponent" and b: "b = of_int l * 2 powi denormal_exponent"
    unfolding on_grid_def by blast
  have "of_int k * (2::real) powi denormal_exponent < of_int l * 2 powi denormal_exponent"
    using assms(3) a b by simp
  then have "(of_int k :: real) < of_int l"
    using two_powi_pos[of denormal_exponent] by (simp only: mult_less_cancel_right_pos)
  then have "k + 1 \<le> l" by simp
  then have "(of_int (k + 1) :: real) \<le> of_int l" by (simp only: of_int_le_iff)
  then have "of_int (k + 1) * (2::real) powi denormal_exponent \<le> of_int l * 2 powi denormal_exponent"
    using two_powi_pos[of denormal_exponent] by (simp only: mult_le_cancel_right_pos)
  then show ?thesis using a b by (simp add: algebra_simps)
qed

text \<open>
  The difference of two doubles, rounded, has the sign of the exact difference: it is
  never rounded to zero.
\<close>

lemma dbl_sub_sign:
  assumes "on_grid a" "on_grid b"
  shows "dbl_sub b a \<le> 0 \<longleftrightarrow> b \<le> a"
proof (cases a b rule: linorder_cases)
  case less
  have "2 powi denormal_exponent \<le> b - a" using assms less by (rule grid_gap)
  then have "0 < to_double (b - a)" by (rule to_double_pos)
  then show ?thesis using less by (simp add: dbl_sub_def)
next
  case equal
  then show ?thesis by (simp add: dbl_sub_def to_double_zero)
next
  case greater
  have "2 powi denormal_exponent \<le> a - b" using assms(2,1) greater by (rule grid_gap)
  then have "to_double (b - a) < 0" by (intro to_double_neg) simp
  then show ?thesis using greater by (simp add: dbl_sub_def)
qed

subsection \<open>Computing a rounding\<close>

lemma floor_log_eqI:
  assumes "2 powi e \<le> x" "x < 2 powi (e + 1)"
  shows "\<lfloor>log 2 x\<rfloor> = e"
proof -
  have pos: "0 < x" using assms(1) two_powi_pos[of e] by linarith
  have "(2::real) powr (of_int e) = 2 powi e"
    using powr_real_of_int'[of "2::real" e] by simp
  moreover have "(2::real) powr (of_int e + 1) = 2 powi (e + 1)"
    using powr_real_of_int'[of "2::real" "e + 1"] by simp
  ultimately show ?thesis
    using assms pos floor_log_eq_powr_iff[of x 2 e] by simp
qed

lemma round_pos_scaled:
  assumes "2 ^ 52 \<le> x * 2 ^ n" "x * 2 ^ n < 2 ^ 53" "n \<le> 1074"
  shows "round_pos x = of_int (round_half_even (x * 2 ^ n)) / 2 ^ n"
proof -
  have p: "(2::real) powi (52 - int n) = 2 ^ 52 / 2 ^ n"
    by (simp add: power_int_diff)
  have q: "(2::real) powi (52 - int n + 1) = 2 ^ 53 / 2 ^ n"
    by (simp add: power_int_diff power_int_add)
  have "2 powi (52 - int n) \<le> x" "x < 2 powi (52 - int n + 1)"
    unfolding p q using assms(1,2) by (simp_all add: field_simps)
  then have "\<lfloor>log 2 x\<rfloor> = 52 - int n" by (rule floor_log_eqI)
  then have "ulp_exponent x = - int n"
    using assms(3) by (simp add: ulp_exponent_def)
  moreover have "(2::real) powi (- int n) = 1 / 2 ^ n"
    by (simp add: power_int_minus field_simps)
  ultimately show ?thesis by (simp add: round_pos_def)
qed

text \<open>
  A number \<open>x\<close> with \<open>2 ^ 52 \<le> x * 2 ^ n < 2 ^ 53\<close> is rounded to a multiple of
  \<open>1 / 2 ^ n\<close>.
\<close>

lemma to_double_scaled:
  assumes "2 ^ 52 \<le> x * 2 ^ n" "x * 2 ^ n < 2 ^ 53" "n \<le> 1074"
  shows "to_double x = of_int (round_half_even (x * 2 ^ n)) / 2 ^ n"
proof -
  have "(0::real) < 2 ^ 52" by simp
  then have "0 < x * 2 ^ n" using assms(1) by linarith
  then have "0 < x" by (simp add: zero_less_mult_iff)
  then show ?thesis using round_pos_scaled[OF assms] by (simp add: to_double_def)
qed

lemma round_pos_error:
  assumes "0 < x"
  shows "\<bar>round_pos x - x\<bar> \<le> 2 powi ulp_exponent x / 2"
proof -
  let ?u = "(2::real) powi ulp_exponent x"
  have u: "0 < ?u" by simp
  have "round_pos x - x = (of_int (round_half_even (x / ?u)) - x / ?u) * ?u"
    using u by (simp add: round_pos_def algebra_simps)
  then have "\<bar>round_pos x - x\<bar> = \<bar>of_int (round_half_even (x / ?u)) - x / ?u\<bar> * ?u"
    using u by (simp add: abs_mult)
  also have "\<dots> \<le> (1 / 2) * ?u"
    using round_half_even_error[of "x / ?u"] u by (intro mult_right_mono) simp_all
  finally show ?thesis by simp
qed

lemma ulp_exponent_le:
  assumes "0 < x" "x < 2 powi e" "- 1022 < e"
  shows "ulp_exponent x \<le> e - 53"
proof -
  have "\<lfloor>log 2 x\<rfloor> < e"
  proof (rule ccontr)
    assume "\<not> \<lfloor>log 2 x\<rfloor> < e"
    then have "(2::real) powi e \<le> 2 powi \<lfloor>log 2 x\<rfloor>"
      by (intro power_int_increasing) simp_all
    then show False using two_powi_floor_log_le[OF assms(1)] assms(2) by linarith
  qed
  then show ?thesis using assms(3) by (simp add: ulp_exponent_def)
qed

lemma to_double_error:
  assumes "\<bar>x\<bar> < 2 ^ 27"
  shows "\<bar>to_double x - x\<bar> \<le> 1 / 2 ^ 27"
proof -
  have bound: "\<bar>round_pos y - y\<bar> \<le> 1 / 2 ^ 27" if "0 < y" "y < 2 ^ 27" for y :: real
  proof -
    have "y < 2 powi 27" using that(2) by simp
    then have "ulp_exponent y \<le> 27 - 53" using that(1) by (intro ulp_exponent_le) simp_all
    then have "(2::real) powi ulp_exponent y \<le> 2 powi (- 26)"
      by (intro power_int_increasing) simp_all
    then have "(2::real) powi ulp_exponent y / 2 \<le> 1 / 2 ^ 27"
      by (simp add: power_int_minus field_simps)
    then show ?thesis using round_pos_error[OF that(1)] by linarith
  qed
  show ?thesis
  proof (cases x "0::real" rule: linorder_cases)
    case less
    then have "\<bar>round_pos (- x) - (- x)\<bar> \<le> 1 / 2 ^ 27"
      using assms by (intro bound) simp_all
    then show ?thesis using less by (simp add: to_double_def abs_if split: if_splits)
  next
    case equal
    then show ?thesis by (simp add: to_double_def)
  next
    case greater
    then have "\<bar>round_pos x - x\<bar> \<le> 1 / 2 ^ 27"
      using assms by (intro bound) simp_all
    then show ?thesis using greater by (simp add: to_double_def)
  qed
qed

subsection \<open>Integers below \<open>2 ^ 53\<close> are doubles\<close>

lemma round_pos_of_int:
  assumes "0 < k" "k < 2 ^ 53"
  shows "round_pos (of_int k) = of_int k"
proof -
  let ?e = "\<lfloor>log 2 (of_int k)\<rfloor>"
  have pos: "0 < (of_int k :: real)" using assms(1) by simp
  have "(1::real) \<le> of_int k" using assms(1) by simp
  then have "0 \<le> log 2 (of_int k)" by simp
  then have e0: "0 \<le> ?e" by simp
  have "(of_int k :: real) < of_int (2 ^ 53)" using assms(2) by (simp only: of_int_less_iff)
  then have "(of_int k :: real) < 2 powi 53" by simp
  then have "ulp_exponent (of_int k) \<le> 53 - 53" using pos by (intro ulp_exponent_le) simp_all
  moreover have ue: "ulp_exponent (of_int k) = ?e - 52" using e0 by (simp add: ulp_exponent_def)
  ultimately have e52: "?e \<le> 52" by simp
  define m where "m = nat (52 - ?e)"
  have "?e - 52 = - int m" using e52 by (simp add: m_def)
  then have "(2::real) powi (?e - 52) = 2 powi (- int m)" by (rule arg_cong)
  also have "\<dots> = inverse (2 ^ m)" by (simp only: power_int_minus power_int_of_nat)
  finally have u: "(2::real) powi (?e - 52) = inverse (2 ^ m)" .
  have "of_int k / inverse ((2::real) ^ m) = of_int (k * 2 ^ m)"
    by (simp add: field_simps)
  then have "round_half_even (of_int k / inverse ((2::real) ^ m)) = k * 2 ^ m"
    by (simp only: round_half_even_of_int)
  then have "round_pos (of_int k) = of_int (k * 2 ^ m) * inverse (2 ^ m)"
    unfolding round_pos_def ue u by (rule arg_cong)
  then show ?thesis by (simp add: field_simps)
qed

lemma to_double_of_int:
  assumes "\<bar>k\<bar> < 2 ^ 53"
  shows "to_double (of_int k) = of_int k"
proof (cases k "0::int" rule: linorder_cases)
  case less
  then have "round_pos (of_int (- k)) = of_int (- k)" using assms by (intro round_pos_of_int) simp_all
  then show ?thesis using less by (simp add: to_double_def)
next
  case equal
  then show ?thesis by (simp add: to_double_def)
next
  case greater
  then have "round_pos (of_int k) = of_int k" using assms by (intro round_pos_of_int) simp_all
  then show ?thesis using greater by (simp add: to_double_def)
qed

lemma to_double_numeral:
  "(numeral n :: int) < 2 ^ 53 \<Longrightarrow> to_double (numeral n) = numeral n"
  using to_double_of_int[of "numeral n"] by simp

lemma to_double_one: "to_double 1 = 1"
  using to_double_of_int[of 1] by simp

text \<open>
  The quotient of a time span in milliseconds by the milliseconds of a day, computed in
  doubles, has the same integer part as the exact quotient.
\<close>

lemma floor_to_double_quotient:
  fixes d :: int
  assumes "\<bar>d\<bar> < 2 ^ 53"
  shows "\<lfloor>to_double (of_int d / 86400000)\<rfloor> = d div 86400000"
proof -
  define q where "q = d div 86400000"
  define r where "r = d mod 86400000"
  let ?y = "(of_int d :: real) / 86400000"
  have d: "d = q * 86400000 + r" by (simp add: q_def r_def)
  have y: "?y = of_int q + of_int r / 86400000"
    unfolding d by (simp add: field_simps)
  have r: "0 \<le> r" "r < 86400000" by (simp_all add: r_def)
  have qb: "\<bar>q\<bar> < 2 ^ 27 - 1" using assms unfolding q_def by (simp add: abs_less_iff) linarith
  show ?thesis
  proof (cases "r = 0")
    case True
    then have "?y = of_int q" using y by simp
    moreover have "to_double (of_int q) = of_int q"
      using qb by (intro to_double_of_int) simp
    ultimately show ?thesis by (simp add: q_def)
  next
    case False
    then have r1: "1 \<le> r" "r \<le> 86400000 - 1" using r by linarith+
    have "(of_int 1 :: real) \<le> of_int r" using r1(1) by (simp only: of_int_le_iff)
    then have lo: "of_int q + 1 / 86400000 \<le> ?y"
      using y by (simp add: field_simps)
    have "(of_int r :: real) \<le> of_int (86400000 - 1)" using r1(2) by (simp only: of_int_le_iff)
    then have hi: "?y \<le> of_int q + 1 - 1 / 86400000"
      using y by (simp add: field_simps)
    have "(of_int \<bar>q\<bar> :: real) < of_int (2 ^ 27 - 1)" using qb by (simp only: of_int_less_iff)
    then have "\<bar>?y\<bar> < 2 ^ 27" using lo hi by (simp add: abs_less_iff)
    then have err: "\<bar>to_double ?y - ?y\<bar> \<le> 1 / 2 ^ 27" by (rule to_double_error)
    have small: "(1::real) / 2 ^ 27 < 1 / 86400000" by simp
    have "of_int q < to_double ?y" "to_double ?y < of_int q + 1"
      using err lo hi small by linarith+
    then have "\<lfloor>to_double ?y\<rfloor> = q" by (simp add: floor_eq_iff)
    then show ?thesis by (simp add: q_def)
  qed
qed


section \<open>Notes and their front matter\<close>

text \<open>
  The \<^verbatim>\<open>FrontMatter\<close> and \<^verbatim>\<open>MarkdownNote\<close> objects of the common package.  The
  code reads \<^verbatim>\<open>project\<close>, \<^verbatim>\<open>updated\<close> and \<^verbatim>\<open>links\<close> defensively
  (\<^verbatim>\<open>links || []\<close>, \<^verbatim>\<open>!updated\<close>), so these fields may be absent; \<^verbatim>\<open>category\<close> is
  whatever string the file holds, since notes are also loaded without validation.  The
  project is kept as its sequence of UTF-16 code units, because \<^verbatim>\<open>trim\<close> tells white
  space of the whole Unicode range from other characters.
\<close>

type_synonym utf16 = "nat list"

record FrontMatter =
  fm_id :: string
  fm_title :: string
  fm_category :: string
  fm_tags :: "string list"
  fm_project :: "utf16 option"
  fm_created :: string
  fm_updated :: "string option"
  fm_links :: "string list option"

record MarkdownNote =
  filePath :: string
  frontMatter :: FrontMatter
  content :: string

section \<open>PARA organizer (packages/storage-md/src/para-manager.ts)\<close>

datatype ParaCategory = Projects | Areas | Resources | Archives

text \<open>
  The constructor argument.  \<^verbatim>\<open>rootPath\<close> is required; each other property may be left
  out or be \<^verbatim>\<open>undefined\<close>.  The threshold is a number (a finite double).
\<close>

record ParaStructureConfig =
  cfg_rootPath :: string
  cfg_directories :: "ParaCategory \<Rightarrow> string field"
  cfg_autoMove :: "bool field"
  cfg_createProjectSubdirs :: "bool field"
  cfg_archiveThresholdDays :: "real field"

text \<open>
  The merged configuration.  Its declared type is \<^verbatim>\<open>Required<ParaStructureConfig>\<close>, but
  the merge is an object spread, so a property that the argument carries as \<^verbatim>\<open>undefined\<close>
  is \<^verbatim>\<open>undefined\<close> here too.
\<close>

record ParaConfig =
  rootPath :: string
  directories :: "ParaCategory \<Rightarrow> string option"
  autoMove :: "bool option"
  createProjectSubdirs :: "bool option"
  archiveThresholdDays :: "real option"

fun default_directory :: "ParaCategory \<Rightarrow> string" where
  "default_directory Projects = ''1-Projects''"
| "default_directory Areas = ''2-Areas''"
| "default_directory Resources = ''3-Resources''"
| "default_directory Archives = ''4-Archives''"

definition DEFAULT_PARA_CONFIG :: ParaConfig where
  "DEFAULT_PARA_CONFIG =
     \<lparr>rootPath = '''', directories = (\<lambda>c. Some (default_directory c)), autoMove = Some True,
      createProjectSubdirs = Some True, archiveThresholdDays = Some 90\<rparr>"

text \<open>\<^verbatim>\<open>options.x ?? d\<close> and a destructuring default: \<open>d\<close> stands in for an absent \<open>x\<close>.\<close>

definition or_default :: "'a option \<Rightarrow> 'a \<Rightarrow> 'a" where
  "or_default v d = (case v of None \<Rightarrow> d | Some x \<Rightarrow> x)"

text \<open>
  The constructor of \<^verbatim>\<open>ParaManager\<close>:
  \<^verbatim>\<open>{...DEFAULT_PARA_CONFIG, ...config, directories: {...DEFAULT_PARA_CONFIG.directories, ...config.directories}}\<close>.
\<close>

definition ParaManager_new :: "ParaStructureConfig \<Rightarrow> ParaConfig" where
  "ParaManager_new config =
     \<lparr>rootPath = cfg_rootPath config,
      directories = (\<lambda>c. spread (directories DEFAULT_PARA_CONFIG c) (cfg_directories config c)),
      autoMove = spread (autoMove DEFAULT_PARA_CONFIG) (cfg_autoMove config),
      createProjectSubdirs =
        spread (createProjectSubdirs DEFAULT_PARA_CONFIG) (cfg_createProjectSubdirs config),
      archiveThresholdDays =
        spread (archiveThresholdDays DEFAULT_PARA_CONFIG) (cfg_archiveThresholdDays config)\<rparr>"

text \<open>
  \<^verbatim>\<open>String.prototype.trim\<close> removes white space and line terminators at both ends.  These
  are, in ECMAScript: TAB, LF, VT, FF, CR, SPACE, NBSP, U+1680, U+2000 to U+200A, U+2028,
  U+2029, U+202F, U+205F, U+3000 and U+FEFF; each is a single code unit.
\<close>

definition is_whitespace :: "nat \<Rightarrow> bool" where
  "is_whitespace c =
     (c \<in> set [0x09, 0x0A, 0x0B, 0x0C, 0x0D, 0x20, 0xA0, 0x1680, 0x2028, 0x2029, 0x202F,
               0x205F, 0x3000, 0xFEFF] \<or>
      (0x2000 \<le> c \<and> c \<le> 0x200A))"

definition trim :: "utf16 \<Rightarrow> utf16" where
  "trim s = rev (dropWhile is_whitespace (rev (dropWhile is_whitespace s)))"

text \<open>
  \<^verbatim>\<open>shouldArchive\<close>.  \<^verbatim>\<open>new Date(updated).getTime()\<close> is the parameter \<open>getTime\<close>:
  milliseconds since the epoch (an integer), or \<open>None\<close> for an invalid date (NaN, for
  which every comparison is false).  \<open>now\<close> is \<^verbatim>\<open>new Date().getTime()\<close>.  The difference
  and the quotient are computed in doubles.  A comparison with \<^verbatim>\<open>undefined\<close> is false.
\<close>

definition shouldArchive :: "ParaConfig \<Rightarrow> (string \<Rightarrow> int option) \<Rightarrow> int \<Rightarrow> MarkdownNote \<Rightarrow> bool" where
  "shouldArchive config getTime now note =
     (case fm_updated (frontMatter note) of
        None \<Rightarrow> False
      | Some updated \<Rightarrow>
          if updated = [] then False
          else (case getTime updated of
                  None \<Rightarrow> False
                | Some lastUpdated \<Rightarrow>
                    (let daysDiff =
                           \<lfloor>dbl_div (dbl_sub (of_int now) (of_int lastUpdated))
                              (1000 * 60 * 60 * 24)\<rfloor>
                     in (case archiveThresholdDays config of
                           None \<Rightarrow> False
                         | Some threshold \<Rightarrow> of_int daysDiff > threshold))))"

definition validCategories :: "(string \<times> ParaCategory) list" where
  "validCategories =
     [(''Projects'', Projects), (''Areas'', Areas), (''Resources'', Resources), (''Archives'', Archives)]"

text \<open>
  \<^verbatim>\<open>determineTargetCategory\<close>.  The test \<^verbatim>\<open>project && project.trim()\<close> is JavaScript
  truthiness: an absent or empty project is falsy, and so is an empty trimmed string.
\<close>

definition determineTargetCategory ::
  "ParaConfig \<Rightarrow> (string \<Rightarrow> int option) \<Rightarrow> int \<Rightarrow> MarkdownNote \<Rightarrow> ParaCategory" where
  "determineTargetCategory config getTime now note =
     (let fm = frontMatter note in
      if (case fm_project fm of None \<Rightarrow> False | Some p \<Rightarrow> p \<noteq> [] \<and> trim p \<noteq> [])
      then Projects
      else if shouldArchive config getTime now note then Archives
      else (case map_of validCategories (fm_category fm) of
              Some c \<Rightarrow> c
            | None \<Rightarrow> Resources))"

subsection \<open>The decision table of the specification\<close>

text \<open>The note has a project, and some character of it is not white space.\<close>

definition spec_has_project :: "MarkdownNote \<Rightarrow> bool" where
  "spec_has_project note =
     (case fm_project (frontMatter note) of
        None \<Rightarrow> False
      | Some p \<Rightarrow> list_ex (\<lambda>c. \<not> is_whitespace c) p)"

text \<open>
  The milliseconds between the note's \<^verbatim>\<open>updated\<close> timestamp and \<open>now\<close>; there are none
  when the field is absent, empty or not a date.
\<close>

definition spec_time_span :: "(string \<Rightarrow> int option) \<Rightarrow> int \<Rightarrow> MarkdownNote \<Rightarrow> int option" where
  "spec_time_span getTime now note =
     (case fm_updated (frontMatter note) of
        None \<Rightarrow> None
      | Some u \<Rightarrow> if u = [] then None else map_option (\<lambda>t. now - t) (getTime u))"

text \<open>The number of whole days in that span.\<close>

definition spec_days_since_update :: "(string \<Rightarrow> int option) \<Rightarrow> int \<Rightarrow> MarkdownNote \<Rightarrow> int option" where
  "spec_days_since_update getTime now note =
     map_option (\<lambda>ms. ms div 86400000) (spec_time_span getTime now note)"

definition spec_existing_category :: "MarkdownNote \<Rightarrow> ParaCategory option" where
  "spec_existing_category note =
     (let c = fm_category (frontMatter note) in
      if c = ''Projects'' then Some Projects
      else if c = ''Areas'' then Some Areas
      else if c = ''Resources'' then Some Resources
      else if c = ''Archives'' then Some Archives
      else None)"

text \<open>The decision table for an archive threshold in days; without one, no note is archived.\<close>

definition spec_target_category ::
  "real option \<Rightarrow> (string \<Rightarrow> int option) \<Rightarrow> int \<Rightarrow> MarkdownNote \<Rightarrow> ParaCategory" where
  "spec_target_category threshold getTime now note =
     (if spec_has_project note then Projects
      else if (case (spec_days_since_update getTime now note, threshold) of
                 (Some days, Some limit) \<Rightarrow> of_int days > limit
               | _ \<Rightarrow> False) then Archives
      else (case spec_existing_category note of Some c \<Rightarrow> c | None \<Rightarrow> Resources))"

text \<open>
  A configuration that passes \<^verbatim>\<open>archiveThresholdDays: undefined\<close>, one that leaves the
  property out, and a note in Areas without project that was last updated 100 days before
  \<open>now0\<close> (2025-10-01T08:00:00Z).
\<close>

definition config_undefined :: ParaStructureConfig where
  "config_undefined =
     \<lparr>cfg_rootPath = ''/vault'', cfg_directories = (\<lambda>c. Given (default_directory c)),
      cfg_autoMove = Absent, cfg_createProjectSubdirs = Absent,
      cfg_archiveThresholdDays = Undefined\<rparr>"

definition config_absent :: ParaStructureConfig where
  "config_absent = config_undefined\<lparr>cfg_archiveThresholdDays := Absent\<rparr>"

definition old_note :: MarkdownNote where
  "old_note =
     \<lparr>filePath = ''/vault/2-Areas/health.md'',
      frontMatter = \<lparr>fm_id = ''20250623T080000000001Z'', fm_title = ''Health'',
        fm_category = ''Areas'', fm_tags = [], fm_project = None,
        fm_created = ''2025-06-23T08:00:00Z'', fm_updated = Some ''2025-06-23T08:00:00Z'',
        fm_links = None\<rparr>,
      content = ''''\<rparr>"

definition getTime0 :: "string \<Rightarrow> int option" where
  "getTime0 s = (if s = ''2025-06-23T08:00:00Z'' then Some 1750665600000 else None)"

definition now0 :: int where
  "now0 = 1759305600000"

subsection \<open>Facts about the organizer\<close>

lemma trim_empty_iff: "trim p = [] \<longleftrightarrow> list_all is_whitespace p"
proof
  assume empty: "trim p = []"
  show "list_all is_whitespace p"
  proof (rule ccontr)
    assume "\<not> list_all is_whitespace p"
    then have rest: "dropWhile is_whitespace p \<noteq> []"
      by (simp add: list_all_iff dropWhile_eq_Nil_conv)
    then have "\<not> is_whitespace (hd (dropWhile is_whitespace p))"
      by (rule hd_dropWhile)
    moreover have "hd (dropWhile is_whitespace p) \<in> set (rev (dropWhile is_whitespace p))"
      using rest by simp
    ultimately have "dropWhile is_whitespace (rev (dropWhile is_whitespace p)) \<noteq> []"
      by (auto simp: dropWhile_eq_Nil_conv)
    then show False using empty by (simp add: trim_def)
  qed
next
  assume "list_all is_whitespace p"
  then have rest: "dropWhile is_whitespace p = []"
    by (simp add: list_all_iff dropWhile_eq_Nil_conv)
  show "trim p = []"
    by (simp only: trim_def rest rev.simps dropWhile.simps)
qed

lemma has_project_iff:
  "(case fm_project (frontMatter note) of None \<Rightarrow> False | Some p \<Rightarrow> p \<noteq> [] \<and> trim p \<noteq> []) =
   spec_has_project note"
  by (auto simp: spec_has_project_def trim_empty_iff list_all_iff list_ex_iff split: option.splits)

lemma daysDiff_whole_days:
  assumes "\<bar>now - lastUpdated\<bar> < 2 ^ 53"
  shows "\<lfloor>dbl_div (dbl_sub (of_int now) (of_int lastUpdated)) (1000 * 60 * 60 * 24)\<rfloor> =
           (now - lastUpdated) div 86400000"
proof -
  have "dbl_sub (of_int now) (of_int lastUpdated) = to_double (of_int (now - lastUpdated))"
    by (simp add: dbl_sub_def)
  also have "\<dots> = of_int (now - lastUpdated)"
    using assms by (rule to_double_of_int)
  finally have "dbl_div (dbl_sub (of_int now) (of_int lastUpdated)) (1000 * 60 * 60 * 24) =
      to_double (of_int (now - lastUpdated) / 86400000)"
    by (simp add: dbl_div_def)
  then show ?thesis using floor_to_double_quotient[OF assms] by simp
qed

lemma shouldArchive_days:
  assumes "case spec_time_span getTime now note of None \<Rightarrow> True | Some ms \<Rightarrow> \<bar>ms\<bar> < 2 ^ 53"
  shows "shouldArchive config getTime now note =
     (case (spec_days_since_update getTime now note, archiveThresholdDays config) of
        (Some days, Some limit) \<Rightarrow> of_int days > limit
      | _ \<Rightarrow> False)"
proof (cases "spec_time_span getTime now note")
  case None
  then show ?thesis
    by (auto simp: shouldArchive_def spec_days_since_update_def spec_time_span_def
        split: option.splits if_splits)
next
  case (Some ms)
  then obtain u t where u: "fm_updated (frontMatter note) = Some u" "u \<noteq> []" "getTime u = Some t"
    and ms: "ms = now - t"
    by (auto simp: spec_time_span_def split: option.splits if_splits)
  have "\<bar>now - t\<bar> < 2 ^ 53" using assms Some ms by simp
  from daysDiff_whole_days[OF this] show ?thesis
    using u Some ms
    by (simp add: shouldArchive_def spec_days_since_update_def Let_def split: option.splits)
qed

lemma validCategories_existing:
  "map_of validCategories (fm_category (frontMatter note)) = spec_existing_category note"
  by (simp add: validCategories_def spec_existing_category_def Let_def)

lemma threshold_ParaManager_new:
  "archiveThresholdDays (ParaManager_new config) =
     (case cfg_archiveThresholdDays config of
        Absent \<Rightarrow> Some 90 | Undefined \<Rightarrow> None | Given d \<Rightarrow> Some d)"
  by (simp add: ParaManager_new_def DEFAULT_PARA_CONFIG_def split: field.splits)

text \<open>
  The code follows the decision table for every configuration and every note whose time
  span is below \<open>2 ^ 53\<close> milliseconds (some 285 000 years), with the threshold of the
  merged configuration: 90 days when the property is left out, the given number of days,
  and none at all when the property is passed as \<^verbatim>\<open>undefined\<close>.
\<close>

lemma determineTargetCategory_decision_table:
  assumes "case spec_time_span getTime now note of None \<Rightarrow> True | Some ms \<Rightarrow> \<bar>ms\<bar> < 2 ^ 53"
  shows "determineTargetCategory (ParaManager_new config) getTime now note =
     spec_target_category
       (case cfg_archiveThresholdDays config of
          Absent \<Rightarrow> Some 90 | Undefined \<Rightarrow> None | Given d \<Rightarrow> Some d) getTime now note"
  unfolding determineTargetCategory_def spec_target_category_def Let_def
    has_project_iff shouldArchive_days[OF assms] validCategories_existing threshold_ParaManager_new
  by (rule refl)

text \<open>
  A project of an ideographic space, a letter, an em space and a byte-order mark is
  trimmed to the letter; a project of white space only is no project.
\<close>

lemma trim_example: "trim [0x3000, 0x41, 0x2003, 0xFEFF] = [0x41]"
  by (simp add: trim_def is_whitespace_def)

lemma blank_project_example:
  "\<not> spec_has_project (old_note\<lparr>frontMatter := (frontMatter old_note)\<lparr>fm_project := Some [0x3000, 0x2003]\<rparr>\<rparr>)"
  by (simp add: spec_has_project_def is_whitespace_def)

lemma old_note_span: "spec_time_span getTime0 now0 old_note = Some 8640000000"
  by (simp add: spec_time_span_def old_note_def getTime0_def now0_def)

text \<open>
  Claim C6: the target category is Projects when the note's project is non-empty after
  trimming; otherwise Archives when the number of whole days between now and the note's
  \<^verbatim>\<open>updated\<close> timestamp exceeds the archive threshold (default 90 days); otherwise the
  note's existing category when it is one of the four; otherwise Resources.  The note
  \<open>old_note\<close> is 100 days old: the decision table with the default threshold sends it to
  Archives, and so does the organizer when the configuration leaves the threshold out.
  When the configuration passes the threshold as \<^verbatim>\<open>undefined\<close>, the spread in the
  constructor erases the default, the comparison \<^verbatim>\<open>daysDiff > undefined\<close> is false, and
  the organizer keeps the note in Areas.
\<close>

theorem determineTargetCategory_undefined_threshold:
  "spec_target_category (Some 90) getTime0 now0 old_note = Archives \<and>
   determineTargetCategory (ParaManager_new config_absent) getTime0 now0 old_note = Archives \<and>
   determineTargetCategory (ParaManager_new config_undefined) getTime0 now0 old_note = Areas"
proof -
  have ms: "case spec_time_span getTime0 now0 old_note of
                None \<Rightarrow> True | Some ms \<Rightarrow> \<bar>ms\<bar> < 2 ^ 53"
    by (simp add: old_note_span)
  have days: "spec_days_since_update getTime0 now0 old_note = Some 100"
    by (simp add: spec_days_since_update_def old_note_span)
  have project: "\<not> spec_has_project old_note"
    by (simp add: spec_has_project_def old_note_def)
  have category: "spec_existing_category old_note = Some Areas"
    by (simp add: spec_existing_category_def old_note_def)
  have "spec_target_category (Some 90) getTime0 now0 old_note = Archives"
    by (simp add: spec_target_category_def days project)
  moreover have "spec_target_category None getTime0 now0 old_note = Areas"
    by (simp add: spec_target_category_def days project category)
  ultimately show ?thesis
    by (simp add: determineTargetCategory_decision_table[OF ms] config_absent_def
        config_undefined_def)
qed



section \<open>Link graph queries (LinkGraphManager)\<close>

datatype index_error = SearchError | DatabaseError

record LinkRelation =
  sourceUid :: string
  targetUid :: string
  linkType :: string
  strength :: int
  createdAt :: string
  lastSeenAt :: string

text \<open>The columns \<^verbatim>\<open>getNodeInfo\<close> selects from the \<^verbatim>\<open>notes\<close> table.\<close>

record NoteRow =
  row_uid :: string
  row_title :: string
  row_category :: string
  row_file_path :: string

datatype statement = FindBacklinksStmt | FindOutboundStmt | NodeInfoStmt

text \<open>
  The SQL engine is outside the repository.  For each prepared statement the model holds
  the rows it yields for a parameter, in the order of its \<^verbatim>\<open>ORDER BY\<close> clause and before
  its \<^verbatim>\<open>LIMIT\<close> is applied, and whether executing it for that parameter throws (a closed,
  locked or damaged database).
\<close>

record LinkGraphManager =
  backlink_rows :: "string \<Rightarrow> LinkRelation list"
  outbound_rows :: "string \<Rightarrow> LinkRelation list"
  note_row :: "string \<Rightarrow> NoteRow option"
  stmt_throws :: "statement \<Rightarrow> string \<Rightarrow> bool"

definition findBacklinks :: "LinkGraphManager \<Rightarrow> string \<Rightarrow> nat \<Rightarrow> index_error + LinkRelation list" where
  "findBacklinks g target limit =
     (if stmt_throws g FindBacklinksStmt target then Inl SearchError
      else Inr (take limit (backlink_rows g target)))"

definition findOutboundLinks :: "LinkGraphManager \<Rightarrow> string \<Rightarrow> nat \<Rightarrow> index_error + LinkRelation list" where
  "findOutboundLinks g source limit =
     (if stmt_throws g FindOutboundStmt source then Inl SearchError
      else Inr (take limit (outbound_rows g source)))"

section \<open>Hybrid search (SearchEngine)\<close>

record SearchResult =
  res_id :: string
  res_title :: string
  res_category :: string
  res_snippet :: string
  res_score :: real
  res_filePath :: string
  res_tags :: "string list"
  res_links :: "string list option"

record SearchMetrics =
  queryTimeMs :: nat
  processingTimeMs :: nat
  totalTimeMs :: nat
  totalResults :: nat
  returnedResults :: nat

record FtsSearchResult =
  fts_results :: "SearchResult list"
  fts_metrics :: SearchMetrics
  fts_totalCount :: nat

record EnhancedSearchResult =
  results :: "SearchResult list"
  metrics :: SearchMetrics
  totalCount :: nat

text \<open>
  The engine: the full-text search of \<^verbatim>\<open>FtsSearchEngine.searchNotes\<close> (a module outside
  the sources at hand, so a field of the model, which may fail), the link graph, and the
  initialisation flag.
\<close>

record 'o SearchEngine =
  ftsEngine_searchNotes :: "string \<Rightarrow> 'o \<Rightarrow> index_error + FtsSearchResult"
  linkGraph :: LinkGraphManager
  isInitialized :: bool

text \<open>
  \<^verbatim>\<open>calculateLinkScore\<close>, in double arithmetic; \<^verbatim>\<open>reduce\<close> is a left fold.  The strength
  of a row is an integer column, read as the nearest double.
\<close>

definition calculateLinkScore :: "LinkRelation list \<Rightarrow> LinkRelation list \<Rightarrow> real" where
  "calculateLinkScore backlinks outboundLinks =
     (let backlinkScore =
            dbl_mul (foldl (\<lambda>sum link. dbl_add sum (to_double (of_int (strength link)))) 0 backlinks) 2;
          outboundScore =
            foldl (\<lambda>sum link. dbl_add sum (to_double (of_int (strength link)))) 0 outboundLinks;
          totalScore = dbl_add backlinkScore outboundScore
      in min (dbl_div totalScore 20) 1.0)"

text \<open>
  \<^verbatim>\<open>combineScores\<close>: \<^verbatim>\<open>(ftsScore * 0.7) + (linkScore * 0.3)\<close>.  The literals denote the
  doubles nearest to 7/10 and 3/10.
\<close>

definition combineScores :: "real \<Rightarrow> real \<Rightarrow> real" where
  "combineScores ftsScore linkScore =
     dbl_add (dbl_mul ftsScore (to_double 0.7)) (dbl_mul linkScore (to_double 0.3))"

text \<open>
  The body of the loop of \<^verbatim>\<open>enhanceWithLinkData\<close>: the \<^verbatim>\<open>catch\<close> branch pushes the
  original result.
\<close>

definition enhance_result :: "LinkGraphManager \<Rightarrow> SearchResult \<Rightarrow> SearchResult" where
  "enhance_result g result =
     (case findBacklinks g (res_id result) 10 of
        Inl error \<Rightarrow> result
      | Inr backlinks \<Rightarrow>
          (case findOutboundLinks g (res_id result) 10 of
             Inl error \<Rightarrow> result
           | Inr outboundLinks \<Rightarrow>
               (let linkScore = calculateLinkScore backlinks outboundLinks
                in result\<lparr>res_links := Some (map targetUid outboundLinks),
                          res_score := combineScores (res_score result) linkScore\<rparr>)))"

fun enhanceWithLinkData :: "LinkGraphManager \<Rightarrow> SearchResult list \<Rightarrow> SearchResult list" where
  "enhanceWithLinkData g [] = []"
| "enhanceWithLinkData g (result # rest) = enhance_result g result # enhanceWithLinkData g rest"

text \<open>
  \<^verbatim>\<open>Array.prototype.sort\<close> with a comparator is stable; it is modelled as a stable
  insertion sort: \<open>x\<close> goes before the first element \<open>y\<close> with \<open>compare x y \<le> 0\<close>.
\<close>

fun insert_by :: "('a \<Rightarrow> 'a \<Rightarrow> real) \<Rightarrow> 'a \<Rightarrow> 'a list \<Rightarrow> 'a list" where
  "insert_by compare x [] = [x]"
| "insert_by compare x (y # ys) =
     (if compare x y \<le> 0 then x # y # ys else y # insert_by compare x ys)"

definition sort_by :: "('a \<Rightarrow> 'a \<Rightarrow> real) \<Rightarrow> 'a list \<Rightarrow> 'a list" where
  "sort_by compare xs = foldr (insert_by compare) xs []"

text \<open>\<^verbatim>\<open>a.links?.length || 0\<close>\<close>

definition linkCount :: "SearchResult \<Rightarrow> nat" where
  "linkCount r = (case res_links r of None \<Rightarrow> 0 | Some ls \<Rightarrow> length ls)"

text \<open>The comparator of \<^verbatim>\<open>rerankResults\<close>; both subtractions are double subtractions.\<close>

definition rerank_compare :: "SearchResult \<Rightarrow> SearchResult \<Rightarrow> real" where
  "rerank_compare a b =
     (if res_score b \<noteq> res_score a then dbl_sub (res_score b) (res_score a)
      else (let aLinkCount = linkCount a; bLinkCount = linkCount b
            in dbl_sub (real bLinkCount) (real aLinkCount)))"

definition rerankResults :: "SearchResult list \<Rightarrow> SearchResult list" where
  "rerankResults rs = sort_by rerank_compare rs"

text \<open>
  \<^verbatim>\<open>search\<close>.  \<open>totalTime\<close> is the difference of the two clock readings.  Any failure
  inside the \<^verbatim>\<open>try\<close> block is rethrown as a \<^verbatim>\<open>SearchError\<close>.
\<close>

definition search ::
  "'o SearchEngine \<Rightarrow> string \<Rightarrow> 'o \<Rightarrow> nat \<Rightarrow> index_error + EnhancedSearchResult" where
  "search engine query options totalTime =
     (if \<not> isInitialized engine then Inl SearchError
      else (case ftsEngine_searchNotes engine query options of
              Inl error \<Rightarrow> Inl SearchError
            | Inr ftsResult \<Rightarrow>
                (let enhancedResults = enhanceWithLinkData (linkGraph engine) (fts_results ftsResult);
                     rerankedResults = rerankResults enhancedResults
                 in Inr \<lparr>results = rerankedResults,
                         metrics = (fts_metrics ftsResult)\<lparr>totalTimeMs := totalTime\<rparr>,
                         totalCount = fts_totalCount ftsResult\<rparr>)))"

subsection \<open>The ranking formula of the specification\<close>

text \<open>The sum of integer strengths, added up from the left in doubles.\<close>

definition dbl_sum :: "int list \<Rightarrow> real" where
  "dbl_sum xs = foldl (\<lambda>s x. dbl_add s (to_double (of_int x))) 0 xs"

text \<open>
  \<open>0.7 * fts + 0.3 * min ((2 * sum of up to 10 backlink strengths + sum of up to 10
  outbound strengths) / 20) 1\<close>, read off the rows of the link table and evaluated in
  double arithmetic.
\<close>

definition spec_link_score :: "LinkGraphManager \<Rightarrow> string \<Rightarrow> real" where
  "spec_link_score g uid =
     min (dbl_div (dbl_add (dbl_mul 2 (dbl_sum (map strength (take 10 (backlink_rows g uid)))))
                           (dbl_sum (map strength (take 10 (outbound_rows g uid))))) 20) 1"

definition spec_hybrid_score :: "LinkGraphManager \<Rightarrow> SearchResult \<Rightarrow> real" where
  "spec_hybrid_score g r =
     dbl_add (dbl_mul (to_double 0.7) (res_score r))
             (dbl_mul (to_double 0.3) (spec_link_score g (res_id r)))"

text \<open>Both link queries of a candidate succeed.\<close>

definition links_fetched :: "LinkGraphManager \<Rightarrow> SearchResult \<Rightarrow> bool" where
  "links_fetched g r =
     (\<not> stmt_throws g FindBacklinksStmt (res_id r) \<and> \<not> stmt_throws g FindOutboundStmt (res_id r))"

text \<open>
  A candidate as the search returns it: with the hybrid score and the targets of its first
  10 outbound links when both link queries succeed, and as the FTS stage delivered it
  otherwise.
\<close>

definition spec_candidate :: "LinkGraphManager \<Rightarrow> SearchResult \<Rightarrow> SearchResult" where
  "spec_candidate g r =
     (if links_fetched g r
      then r\<lparr>res_score := spec_hybrid_score g r,
             res_links := Some (map targetUid (take 10 (outbound_rows g (res_id r))))\<rparr>
      else r)"

text \<open>Combined score descending, ties broken by the number of attached links descending.\<close>

definition ranked_before :: "SearchResult \<Rightarrow> SearchResult \<Rightarrow> bool" where
  "ranked_before a b =
     (res_score a > res_score b \<or> (res_score a = res_score b \<and> linkCount a \<ge> linkCount b))"

text \<open>A note with one backlink of strength 10 whose backlink query throws.\<close>

definition cand0 :: SearchResult where
  "cand0 = \<lparr>res_id = ''a'', res_title = ''A'', res_category = ''Resources'', res_snippet = '''',
            res_score = 0.5, res_filePath = ''a.md'', res_tags = [], res_links = None\<rparr>"

definition graph0 :: LinkGraphManager where
  "graph0 =
     \<lparr>backlink_rows = (\<lambda>uid. if uid = ''a''
         then [\<lparr>sourceUid = ''b'', targetUid = ''a'', linkType = ''internal'', strength = 10,
                createdAt = '''', lastSeenAt = ''''\<rparr>] else []),
      outbound_rows = (\<lambda>uid. []),
      note_row = (\<lambda>uid. None),
      stmt_throws = (\<lambda>stmt uid. stmt = FindBacklinksStmt \<and> uid = ''a'')\<rparr>"

definition engine0 :: "unit SearchEngine" where
  "engine0 =
     \<lparr>ftsEngine_searchNotes = (\<lambda>query options. Inr \<lparr>fts_results = [cand0],
          fts_metrics = \<lparr>queryTimeMs = 1, processingTimeMs = 1, totalTimeMs = 1,
                         totalResults = 1, returnedResults = 1\<rparr>,
          fts_totalCount = 1\<rparr>),
      linkGraph = graph0,
      isInitialized = True\<rparr>"

text \<open>
  Three candidates in the order of the FTS stage, with FTS scores 0.5, 0.907142857142857
  and 1.  Note c1 has two backlinks (strengths 10 and 1), note c2 links to c1, note c3 has
  no links; every query succeeds.
\<close>

definition link_c2_c1 :: LinkRelation where
  "link_c2_c1 = \<lparr>sourceUid = ''c2'', targetUid = ''c1'', linkType = ''internal'', strength = 1,
                 createdAt = '''', lastSeenAt = ''''\<rparr>"

definition link_b_c1 :: LinkRelation where
  "link_b_c1 = \<lparr>sourceUid = ''b'', targetUid = ''c1'', linkType = ''internal'', strength = 10,
                createdAt = '''', lastSeenAt = ''''\<rparr>"

definition graph1 :: LinkGraphManager where
  "graph1 =
     \<lparr>backlink_rows = (\<lambda>uid. if uid = ''c1'' then [link_b_c1, link_c2_c1] else []),
      outbound_rows = (\<lambda>uid. if uid = ''c2'' then [link_c2_c1] else []),
      note_row = (\<lambda>uid. None),
      stmt_throws = (\<lambda>stmt uid. False)\<rparr>"

definition candidate :: "string \<Rightarrow> real \<Rightarrow> SearchResult" where
  "candidate uid score =
     \<lparr>res_id = uid, res_title = uid, res_category = ''Resources'', res_snippet = '''',
      res_score = score, res_filePath = uid @ ''.md'', res_tags = [], res_links = None\<rparr>"

definition fts1 :: FtsSearchResult where
  "fts1 =
     \<lparr>fts_results = [candidate ''c1'' 0.5, candidate ''c2'' (to_double 0.907142857142857),
                      candidate ''c3'' 1],
      fts_metrics = \<lparr>queryTimeMs = 1, processingTimeMs = 1, totalTimeMs = 1,
                     totalResults = 3, returnedResults = 3\<rparr>,
      fts_totalCount = 3\<rparr>"

definition engine1 :: "unit SearchEngine" where
  "engine1 =
     \<lparr>ftsEngine_searchNotes = (\<lambda>query options. Inr fts1), linkGraph = graph1,
      isInitialized = True\<rparr>"

subsection \<open>Facts about the search pipeline\<close>

lemma dbl_mul_commute: "dbl_mul a b = dbl_mul b a"
  by (simp add: dbl_mul_def mult.commute)

lemma foldl_strength:
  "foldl (\<lambda>sum link. dbl_add sum (to_double (of_int (strength link)))) a ls =
     foldl (\<lambda>s x. dbl_add s (to_double (of_int x))) a (map strength ls)"
  by (induction ls arbitrary: a) simp_all

lemma calculateLinkScore_eq:
  "calculateLinkScore bl ob =
     min (dbl_div (dbl_add (dbl_mul 2 (dbl_sum (map strength bl))) (dbl_sum (map strength ob))) 20) 1"
  by (simp add: calculateLinkScore_def Let_def foldl_strength dbl_sum_def dbl_mul_commute)

text \<open>
  Where the strengths are non-negative and their sum stays below \<open>2 ^ 53\<close> (a strength
  written by the indexer is between 1 and 10), the sums of the formula are exact and only
  the division, the two products and the final sum are rounded.
\<close>

lemma dbl_sum_exact:
  assumes "\<forall>x\<in>set xs. 0 \<le> x" and "sum_list xs < 2 ^ 53"
  shows "dbl_sum xs = of_int (sum_list xs)"
  using assms
proof (induction xs rule: rev_induct)
  case Nil
  then show ?case by (simp add: dbl_sum_def)
next
  case (snoc x xs)
  have x: "0 \<le> x" and rest: "0 \<le> sum_list xs"
    using snoc.prems(1) by (simp_all add: sum_list_nonneg)
  have bound: "sum_list xs + x < 2 ^ 53" using snoc.prems(2) by simp
  have "dbl_sum xs = of_int (sum_list xs)"
    using snoc.IH snoc.prems(1) x bound by simp
  moreover have "to_double (of_int x) = of_int x"
    using x rest bound by (intro to_double_of_int) simp
  moreover have "to_double (of_int (sum_list xs + x)) = of_int (sum_list xs + x)"
    using x rest bound by (intro to_double_of_int) simp
  ultimately show ?case by (simp add: dbl_sum_def dbl_add_def)
qed

lemma spec_link_score_exact:
  assumes "\<forall>l\<in>set (backlink_rows g uid) \<union> set (outbound_rows g uid). 0 \<le> strength l"
    and "2 * sum_list (map strength (take 10 (backlink_rows g uid))) +
         sum_list (map strength (take 10 (outbound_rows g uid))) < 2 ^ 53"
  shows "spec_link_score g uid =
           min (to_double
                  (of_int (2 * sum_list (map strength (take 10 (backlink_rows g uid))) +
                           sum_list (map strength (take 10 (outbound_rows g uid)))) / 20)) 1"
proof -
  let ?b = "map strength (take 10 (backlink_rows g uid))"
  let ?o = "map strength (take 10 (outbound_rows g uid))"
  have nonneg: "\<forall>x\<in>set ?b. 0 \<le> x" "\<forall>x\<in>set ?o. 0 \<le> x"
    using assms(1) by (auto dest: in_set_takeD)
  have sums: "0 \<le> sum_list ?b" "0 \<le> sum_list ?o"
    using nonneg by (intro sum_list_nonneg, blast)+
  have b: "dbl_sum ?b = of_int (sum_list ?b)"
    using nonneg(1) sums assms(2) by (intro dbl_sum_exact) simp_all
  have o: "dbl_sum ?o = of_int (sum_list ?o)"
    using nonneg(2) sums assms(2) by (intro dbl_sum_exact) simp_all
  have "to_double (of_int (2 * sum_list ?b)) = of_int (2 * sum_list ?b)"
    using sums assms(2) by (intro to_double_of_int) simp
  then have twice: "dbl_mul 2 (dbl_sum ?b) = of_int (2 * sum_list ?b)"
    by (simp add: dbl_mul_def b)
  have "to_double (of_int (2 * sum_list ?b + sum_list ?o)) = of_int (2 * sum_list ?b + sum_list ?o)"
    using sums assms(2) by (intro to_double_of_int) simp
  then have "dbl_add (dbl_mul 2 (dbl_sum ?b)) (dbl_sum ?o) = of_int (2 * sum_list ?b + sum_list ?o)"
    by (simp add: dbl_add_def twice o)
  then show ?thesis by (simp add: spec_link_score_def dbl_div_def)
qed

lemma enhance_result_failed: "\<not> links_fetched g r \<Longrightarrow> enhance_result g r = r"
  by (auto simp: links_fetched_def enhance_result_def findBacklinks_def findOutboundLinks_def)

lemma enhance_result_fetched:
  assumes "links_fetched g r"
  shows "enhance_result g r =
           r\<lparr>res_score := spec_hybrid_score g r,
             res_links := Some (map targetUid (take 10 (outbound_rows g (res_id r))))\<rparr>"
  using assms
  by (simp add: links_fetched_def enhance_result_def findBacklinks_def findOutboundLinks_def
      Let_def calculateLinkScore_eq combineScores_def spec_hybrid_score_def spec_link_score_def
      dbl_mul_commute)

lemma enhance_result_spec: "enhance_result g r = spec_candidate g r"
  by (simp add: spec_candidate_def enhance_result_failed enhance_result_fetched)

lemma length_enhanceWithLinkData: "length (enhanceWithLinkData g rs) = length rs"
  by (induction rs) simp_all

lemma nth_enhanceWithLinkData:
  "i < length rs \<Longrightarrow> enhanceWithLinkData g rs ! i = enhance_result g (rs ! i)"
  by (induction rs arbitrary: i) (simp_all add: nth_Cons split: nat.splits)

lemma enhanceWithLinkData_map: "enhanceWithLinkData g rs = map (spec_candidate g) rs"
  by (induction rs) (simp_all add: enhance_result_spec)

lemma set_insert_by: "set (insert_by compare x ys) = insert x (set ys)"
  by (induction ys) auto

lemma mset_insert_by: "mset (insert_by compare x ys) = add_mset x (mset ys)"
  by (induction ys) simp_all

lemma mset_sort_by: "mset (sort_by compare xs) = mset xs"
  by (induction xs) (simp_all add: sort_by_def mset_insert_by)

lemma set_sort_by: "set (sort_by compare xs) = set xs"
  using mset_sort_by[of compare xs] by (metis set_mset_mset)

lemma length_sort_by: "length (sort_by compare xs) = length xs"
  using mset_sort_by[of compare xs] by (metis size_mset)

lemma sorted_insert_by:
  assumes total: "\<And>a b. compare a b \<le> 0 \<or> compare b a \<le> 0"
    and trans: "\<And>a b c. compare a b \<le> 0 \<Longrightarrow> compare b c \<le> 0 \<Longrightarrow> compare a c \<le> 0"
    and "sorted_wrt (\<lambda>a b. compare a b \<le> 0) ys"
  shows "sorted_wrt (\<lambda>a b. compare a b \<le> 0) (insert_by compare x ys)"
  using assms(3)
proof (induction ys)
  case Nil
  then show ?case by simp
next
  case (Cons y ys)
  show ?case
  proof (cases "compare x y \<le> 0")
    case True
    then show ?thesis using Cons.prems trans by auto
  next
    case False
    with total have "compare y x \<le> 0" by blast
    then show ?thesis using False Cons by (auto simp: set_insert_by)
  qed
qed

lemma sorted_sort_by:
  assumes "\<And>a b. compare a b \<le> 0 \<or> compare b a \<le> 0"
    and "\<And>a b c. compare a b \<le> 0 \<Longrightarrow> compare b c \<le> 0 \<Longrightarrow> compare a c \<le> 0"
  shows "sorted_wrt (\<lambda>a b. compare a b \<le> 0) (sort_by compare xs)"
proof (induction xs)
  case Nil
  then show ?case by (simp add: sort_by_def)
next
  case (Cons x xs)
  have "sort_by compare (x # xs) = insert_by compare x (sort_by compare xs)"
    by (simp add: sort_by_def)
  then show ?case using sorted_insert_by[OF assms Cons] by simp
qed

text \<open>On doubles the comparator decides the ranking order.\<close>

lemma rerank_compare_iff:
  assumes "on_grid (res_score a)" "on_grid (res_score b)"
  shows "rerank_compare a b \<le> 0 \<longleftrightarrow> ranked_before a b"
proof (cases "res_score b = res_score a")
  case True
  have "dbl_sub (real (linkCount b)) (real (linkCount a)) \<le> 0 \<longleftrightarrow>
        real (linkCount b) \<le> real (linkCount a)"
    using on_grid_of_int[of "int (linkCount a)"] on_grid_of_int[of "int (linkCount b)"]
    by (intro dbl_sub_sign) simp_all
  then show ?thesis using True by (simp add: rerank_compare_def ranked_before_def Let_def)
next
  case False
  have "dbl_sub (res_score b) (res_score a) \<le> 0 \<longleftrightarrow> res_score b \<le> res_score a"
    using assms by (rule dbl_sub_sign)
  then show ?thesis using False by (auto simp: rerank_compare_def ranked_before_def)
qed

lemma ranked_before_total: "ranked_before a b \<or> ranked_before b a"
  by (auto simp: ranked_before_def)

lemma ranked_before_trans: "ranked_before a b \<Longrightarrow> ranked_before b c \<Longrightarrow> ranked_before a c"
  by (auto simp: ranked_before_def)

lemma sorted_insert_ranked:
  assumes "on_grid (res_score x)" and "\<forall>y\<in>set ys. on_grid (res_score y)"
    and "sorted_wrt ranked_before ys"
  shows "sorted_wrt ranked_before (insert_by rerank_compare x ys)"
  using assms(2,3)
proof (induction ys)
  case Nil
  then show ?case by simp
next
  case (Cons y ys)
  have iff: "rerank_compare x y \<le> 0 \<longleftrightarrow> ranked_before x y"
    using assms(1) Cons.prems(1) by (intro rerank_compare_iff) simp_all
  show ?case
  proof (cases "ranked_before x y")
    case True
    have "\<forall>z\<in>set ys. ranked_before x z"
      using True Cons.prems(2) ranked_before_trans by auto
    then show ?thesis using True iff Cons.prems(2) by simp
  next
    case False
    then have "ranked_before y x" using ranked_before_total by blast
    moreover have "sorted_wrt ranked_before (insert_by rerank_compare x ys)"
      using Cons by simp
    ultimately show ?thesis using False iff Cons.prems(2) by (auto simp: set_insert_by)
  qed
qed

lemma sorted_rerankResults:
  assumes "\<forall>r\<in>set rs. on_grid (res_score r)"
  shows "sorted_wrt ranked_before (rerankResults rs)"
  unfolding rerankResults_def using assms
proof (induction rs)
  case Nil
  then show ?case by (simp add: sort_by_def)
next
  case (Cons r rs)
  have step: "sort_by rerank_compare (r # rs) = insert_by rerank_compare r (sort_by rerank_compare rs)"
    by (simp add: sort_by_def)
  show ?case
    unfolding step using Cons by (intro sorted_insert_ranked) (simp_all add: set_sort_by)
qed

lemma on_grid_spec_candidate:
  assumes "is_double (res_score r)"
  shows "on_grid (res_score (spec_candidate g r))"
  using assms
  by (simp add: spec_candidate_def spec_hybrid_score_def dbl_add_def on_grid_to_double
      is_double_on_grid)

lemma search_Inr:
  assumes "isInitialized engine" "ftsEngine_searchNotes engine query options = Inr fts"
  shows "search engine query options totalTime =
           Inr \<lparr>results = rerankResults (enhanceWithLinkData (linkGraph engine) (fts_results fts)),
                metrics = (fts_metrics fts)\<lparr>totalTimeMs := totalTime\<rparr>,
                totalCount = fts_totalCount fts\<rparr>"
  using assms by (simp add: search_def Let_def)

subsection \<open>Claims about the hybrid search\<close>

definition fts0 :: FtsSearchResult where
  "fts0 = \<lparr>fts_results = [cand0],
          fts_metrics = \<lparr>queryTimeMs = 1, processingTimeMs = 1, totalTimeMs = 1,
                         totalResults = 1, returnedResults = 1\<rparr>,
          fts_totalCount = 1\<rparr>"

text \<open>
  Rules that compute the rounding of a given number between \<open>2 ^ -7\<close> and \<open>2 ^ 5\<close>: the
  instance of \<open>to_double_scaled\<close> for its binade applies.
\<close>

lemmas to_double_eval =
  to_double_scaled[where n = 48] to_double_scaled[where n = 49] to_double_scaled[where n = 50]
  to_double_scaled[where n = 51] to_double_scaled[where n = 52] to_double_scaled[where n = 53]
  to_double_scaled[where n = 54] to_double_scaled[where n = 55] to_double_scaled[where n = 56]
  to_double_scaled[where n = 57] to_double_scaled[where n = 58] to_double_scaled[where n = 59]
  to_double_zero round_half_even_def Let_def

lemmas search_eval =
  spec_candidate_def links_fetched_def spec_hybrid_score_def spec_link_score_def dbl_sum_def
  dbl_add_def dbl_mul_def dbl_div_def

lemma on_grid_if_double: "to_double x = x \<Longrightarrow> on_grid x"
  using is_double_on_grid[of x] by (simp add: is_double_def)

text \<open>
  The three candidates of \<open>fts1\<close> as the formula scores them: 0.5 with link score 1 and
  0.907142857142857 with link score 0.05 both come to the double 0.6499999999999999, and 1
  with link score 0 comes to the double 0.7.
\<close>

lemma candidates_fts1:
  "map (spec_candidate graph1) (fts_results fts1) =
     [(candidate ''c1'' 0.5)\<lparr>res_score := 5854679515581644 / 2 ^ 53, res_links := Some []\<rparr>,
      (candidate ''c2'' (8170816466800756 / 2 ^ 53))
         \<lparr>res_score := 5854679515581644 / 2 ^ 53, res_links := Some [''c1'']\<rparr>,
      (candidate ''c3'' 1)\<lparr>res_score := 6305039478318694 / 2 ^ 53, res_links := Some []\<rparr>]"
  by (simp add: search_eval graph1_def fts1_def candidate_def link_b_c1_def link_c2_c1_def
      to_double_eval)

lemma doubles_fts1: "list_all (\<lambda>r. is_double (res_score r)) (fts_results fts1)"
  by (simp add: fts1_def candidate_def is_double_def to_double_eval)

text \<open>
  Claim C1, as stated: every candidate's final score is the weighted formula.  A candidate
  whose backlink query throws keeps its FTS score: here the formula gives the double
  0.6499999999999999 and the search returns the candidate with score 0.5.
\<close>

theorem search_score_counterexample:
  "results (projr (search engine0 ''fts5'' () 0)) = [cand0] \<and>
   res_score cand0 = 1 / 2 \<and>
   spec_hybrid_score (linkGraph engine0) cand0 = 5854679515581644 / 2 ^ 53"
proof -
  have "results (projr (search engine0 ''fts5'' () 0)) = [cand0]"
    by (simp add: search_def engine0_def graph0_def cand0_def Let_def rerankResults_def
        sort_by_def enhance_result_def findBacklinks_def)
  moreover have "spec_hybrid_score (linkGraph engine0) cand0 = 5854679515581644 / 2 ^ 53"
    by (simp add: search_eval engine0_def graph0_def cand0_def to_double_eval)
  ultimately show ?thesis by (simp add: cand0_def)
qed

text \<open>
  Claim C1, amended: for every search whose FTS stage returns candidates with finite
  scores, each candidate whose backlink and outbound-link queries both succeed gets, in
  double arithmetic, the final score 0.7 * FTS score + 0.3 * min ((2 * sum of up to 10
  backlink strengths + sum of up to 10 outbound-link strengths) / 20) 1 and the target UIDs
  of its outbound links attached, and is otherwise unchanged; a candidate with a failing
  link query stays as the FTS stage delivered it; the search returns these candidates,
  each exactly once, sorted by final score descending, with ties broken by the number of
  attached links descending.
\<close>

theorem search_hybrid_ranking:
  assumes "isInitialized engine"
    and "ftsEngine_searchNotes engine query options = Inr fts"
    and "list_all (\<lambda>r. is_double (res_score r)) (fts_results fts)"
  shows "\<exists>out. search engine query options totalTime = Inr out \<and>
           mset (results out) = mset (map (spec_candidate (linkGraph engine)) (fts_results fts)) \<and>
           sorted_wrt ranked_before (results out)"
proof -
  let ?g = "linkGraph engine"
  let ?enh = "map (spec_candidate ?g) (fts_results fts)"
  let ?out = "\<lparr>results = rerankResults ?enh,
               metrics = (fts_metrics fts)\<lparr>totalTimeMs := totalTime\<rparr>,
               totalCount = fts_totalCount fts\<rparr>"
  have "search engine query options totalTime = Inr ?out"
    using search_Inr[OF assms(1,2)] by (simp add: enhanceWithLinkData_map)
  moreover have "mset (results ?out) = mset ?enh"
    by (simp add: rerankResults_def mset_sort_by)
  moreover have "\<forall>r\<in>set ?enh. on_grid (res_score r)"
    using assms(3) by (auto simp: list_all_iff on_grid_spec_candidate)
  then have "sorted_wrt ranked_before (results ?out)"
    by (simp add: sorted_rerankResults)
  ultimately show ?thesis by blast
qed

theorem search_hybrid_ranking_witness:
  "isInitialized engine1 \<and> ftsEngine_searchNotes engine1 ''fts5'' () = Inr fts1 \<and>
   list_all (\<lambda>r. is_double (res_score r)) (fts_results fts1) \<and>
   map res_id (fts_results fts1) = [''c1'', ''c2'', ''c3''] \<and>
   (\<exists>out. search engine1 ''fts5'' () 0 = Inr out \<and>
      mset (results out) = mset (map (spec_candidate (linkGraph engine1)) (fts_results fts1)) \<and>
      sorted_wrt ranked_before (results out) \<and>
      map (\<lambda>r. (res_id r, res_score r, res_links r)) (results out) =
        [(''c3'', 6305039478318694 / 2 ^ 53, Some []),
         (''c2'', 5854679515581644 / 2 ^ 53, Some [''c1'']),
         (''c1'', 5854679515581644 / 2 ^ 53, Some [])])"
proof -
  have h1: "isInitialized engine1"
    by (simp add: engine1_def)
  have h2: "ftsEngine_searchNotes engine1 ''fts5'' () = Inr fts1"
    by (simp add: engine1_def)
  have h3: "map res_id (fts_results fts1) = [''c1'', ''c2'', ''c3'']"
    by (simp add: fts1_def candidate_def)
  have g: "linkGraph engine1 = graph1"
    by (simp add: engine1_def)
  have ranked: "map (\<lambda>r. (res_id r, res_score r, res_links r))
                  (rerankResults (map (spec_candidate graph1) (fts_results fts1))) =
        [(''c3'', 6305039478318694 / 2 ^ 53, Some []),
         (''c2'', 5854679515581644 / 2 ^ 53, Some [''c1'']),
         (''c1'', 5854679515581644 / 2 ^ 53, Some [])]"
    unfolding candidates_fts1
    by (simp add: rerankResults_def sort_by_def rerank_compare_iff ranked_before_def
        linkCount_def candidate_def on_grid_if_double to_double_eval)
  have out: "results (projr (search engine1 ''fts5'' () 0)) =
               rerankResults (map (spec_candidate graph1) (fts_results fts1))"
    using search_Inr[OF h1 h2, of 0] by (simp add: enhanceWithLinkData_map g)
  from search_hybrid_ranking[OF h1 h2 doubles_fts1, of 0] show ?thesis
    using h1 h2 h3 doubles_fts1 ranked out by (auto simp: g)
qed

text \<open>
  Claim C10: if fetching the backlinks or the outbound links of a candidate throws, the
  candidate is still part of the returned results, as the FTS stage delivered it (score
  unchanged, no link list attached), and the search succeeds.
\<close>

theorem search_survives_link_failure:
  assumes "isInitialized engine"
    and "ftsEngine_searchNotes engine query options = Inr fts"
    and "i < length (fts_results fts)"
    and "\<not> links_fetched (linkGraph engine) (fts_results fts ! i)"
  shows "enhanceWithLinkData (linkGraph engine) (fts_results fts) ! i = fts_results fts ! i \<and>
         (\<exists>out. search engine query options totalTime = Inr out \<and>
            fts_results fts ! i \<in> set (results out) \<and>
            length (results out) = length (fts_results fts))"
proof -
  let ?enh = "enhanceWithLinkData (linkGraph engine) (fts_results fts)"
  have same: "?enh ! i = fts_results fts ! i"
    using assms(3,4) by (simp add: nth_enhanceWithLinkData enhance_result_failed)
  have "i < length ?enh"
    using assms(3) by (simp add: length_enhanceWithLinkData)
  then have "fts_results fts ! i \<in> set ?enh"
    using same by (metis nth_mem)
  then have "fts_results fts ! i \<in> set (rerankResults ?enh)"
    by (simp add: rerankResults_def set_sort_by)
  moreover have "length (rerankResults ?enh) = length (fts_results fts)"
    by (simp add: rerankResults_def length_sort_by length_enhanceWithLinkData)
  ultimately show ?thesis
    using same search_Inr[OF assms(1,2), of totalTime] by simp
qed

theorem search_survives_link_failure_witness:
  "isInitialized engine0 \<and> ftsEngine_searchNotes engine0 ''fts5'' () = Inr fts0 \<and>
   \<not> links_fetched (linkGraph engine0) (fts_results fts0 ! 0) \<and>
   (\<exists>out. search engine0 ''fts5'' () 0 = Inr out \<and> cand0 \<in> set (results out))"
proof -
  have h1: "isInitialized engine0"
    by (simp add: engine0_def)
  have h2: "ftsEngine_searchNotes engine0 ''fts5'' () = Inr fts0"
    by (simp add: engine0_def fts0_def)
  have h3: "0 < length (fts_results fts0)"
    by (simp add: fts0_def)
  have h4: "\<not> links_fetched (linkGraph engine0) (fts_results fts0 ! 0)"
    by (simp add: engine0_def graph0_def fts0_def cand0_def links_fetched_def)
  have h5: "fts_results fts0 ! 0 = cand0"
    by (simp add: fts0_def)
  from search_survives_link_failure[OF h1 h2 h3 h4, of 0] show ?thesis
    using h1 h2 h4 h5 by auto
qed


section \<open>Backlink synchronizer (packages/storage-md/src/backlink-manager.ts)\<close>

datatype storage_error =
  BACKLINK_SYNC_ERROR | BACKLINK_CLEANUP_ERROR | FILE_ERROR | ANALYSIS_ERROR

datatype sync_type = Update | Remove

record BacklinkSyncEvent =
  ev_type :: sync_type
  ev_targetUid :: string
  ev_affectedNotes :: "string list"
  ev_timestamp :: string

record LinkAnalysis =
  outboundLinks :: "string list"
  inboundLinks :: "string list"
  brokenLinks :: "string list"

text \<open>
  The vault as the manager sees it: the note stored at each path, the paths that
  \<^verbatim>\<open>listFiles(vaultPath, /\.md$/i, true)\<close> enumerates, the calls of \<^verbatim>\<open>saveNote\<close> made
  so far (by path), and the \<^verbatim>\<open>backlinkSync\<close> events emitted so far.
\<close>

record Vault =
  files :: "string \<Rightarrow> MarkdownNote option"
  listing :: "string list"
  saveNote_calls :: "string list"
  emitted :: "BacklinkSyncEvent list"

datatype io_op = ListFiles | LoadNote | SaveNote | FindNoteByUid

text \<open>
  The modules \<^verbatim>\<open>note-manager\<close>, \<^verbatim>\<open>front-matter\<close> and \<^verbatim>\<open>file-operations\<close> are not among
  the sources.  Their link analysis is a parameter, as are the operations that throw (per
  operation and path or UID) and the clock.
\<close>

record NoteStore =
  analyzeLinks :: "MarkdownNote \<Rightarrow> (string \<Rightarrow> MarkdownNote option) \<Rightarrow> storage_error + LinkAnalysis"
  io_fails :: "io_op \<Rightarrow> string \<Rightarrow> bool"
  clock :: string

text \<open>
  Modelled from the spec: \<^verbatim>\<open>load(path)\<close> of the note repository (\<^verbatim>\<open>loadNote\<close>), which
  fails when the file is absent or cannot be read, else returns the note of that path.
\<close>

definition loadNote :: "NoteStore \<Rightarrow> Vault \<Rightarrow> string \<Rightarrow> storage_error + MarkdownNote" where
  "loadNote store v path =
     (if io_fails store LoadNote path then Inl FILE_ERROR
      else (case files v path of
              None \<Rightarrow> Inl FILE_ERROR
            | Some note \<Rightarrow> Inr (note\<lparr>filePath := path\<rparr>)))"

text \<open>
  Modelled from the spec: \<^verbatim>\<open>save(note, {atomic})\<close> of the note repository (\<^verbatim>\<open>saveNote\<close>):
  the file at the note's path holds the note afterwards, or the write fails and the file
  is untouched.
\<close>

definition saveNote :: "NoteStore \<Rightarrow> Vault \<Rightarrow> MarkdownNote \<Rightarrow> storage_error + Vault" where
  "saveNote store v note =
     (if io_fails store SaveNote (filePath note) then Inl FILE_ERROR
      else Inr (v\<lparr>files := (files v)(filePath note \<mapsto> note),
                  saveNote_calls := saveNote_calls v @ [filePath note]\<rparr>))"

text \<open>
  Modelled from the spec: \<^verbatim>\<open>find_by_uid(uid, vault)\<close> (\<^verbatim>\<open>findNoteByUid\<close>) scans the
  vault for the first note whose header carries the UID; the result is null when there is
  none.
\<close>

fun scan_uid :: "(string \<Rightarrow> MarkdownNote option) \<Rightarrow> string \<Rightarrow> string list \<Rightarrow> MarkdownNote option" where
  "scan_uid fs uid [] = None"
| "scan_uid fs uid (p # ps) =
     (case fs p of
        None \<Rightarrow> scan_uid fs uid ps
      | Some note \<Rightarrow>
          if fm_id (frontMatter note) = uid then Some (note\<lparr>filePath := p\<rparr>)
          else scan_uid fs uid ps)"

definition findNoteByUid :: "NoteStore \<Rightarrow> string \<Rightarrow> Vault \<Rightarrow> storage_error + MarkdownNote option" where
  "findNoteByUid store uid v =
     (if io_fails store FindNoteByUid uid then Inl FILE_ERROR
      else Inr (scan_uid (files v) uid (listing v)))"

text \<open>
  Modelled from the spec: \<^verbatim>\<open>updateFrontMatter(frontMatter, {links})\<close> of the header
  codec, which merges the given field into the header and refreshes \<^verbatim>\<open>updated\<close>.
\<close>

definition updateFrontMatter_links :: "NoteStore \<Rightarrow> FrontMatter \<Rightarrow> string list \<Rightarrow> FrontMatter" where
  "updateFrontMatter_links store fm new_links =
     fm\<lparr>fm_links := Some new_links, fm_updated := Some (clock store)\<rparr>"

text \<open>
  \<^verbatim>\<open>syncBacklinksForNote\<close>.  \<^verbatim>\<open>JSON.stringify\<close> is injective on arrays of strings and
  yields \<^verbatim>\<open>undefined\<close> for an absent field, so the comparison of the two serialisations
  is the comparison of the two optional lists.  Every failure inside the \<^verbatim>\<open>try\<close> block
  is rethrown as \<^verbatim>\<open>BACKLINK_SYNC_ERROR\<close>.
\<close>

definition syncBacklinksForNote :: "NoteStore \<Rightarrow> string \<Rightarrow> Vault \<Rightarrow> storage_error + Vault" where
  "syncBacklinksForNote store uid v =
     (case findNoteByUid store uid v of
        Inl error \<Rightarrow> Inl BACKLINK_SYNC_ERROR
      | Inr None \<Rightarrow> Inr v
      | Inr (Some note) \<Rightarrow>
          (case analyzeLinks store note (files v) of
             Inl error \<Rightarrow> Inl BACKLINK_SYNC_ERROR
           | Inr linkAnalysis \<Rightarrow>
               (let updatedFrontMatter =
                      updateFrontMatter_links store (frontMatter note) (outboundLinks linkAnalysis)
                in if fm_links (frontMatter note) \<noteq> fm_links updatedFrontMatter
                   then (case saveNote store v (note\<lparr>frontMatter := updatedFrontMatter\<rparr>) of
                           Inl error \<Rightarrow> Inl BACKLINK_SYNC_ERROR
                         | Inr v' \<Rightarrow>
                             Inr (v'\<lparr>emitted := emitted v' @
                                    [\<lparr>ev_type = Update, ev_targetUid = uid,
                                      ev_affectedNotes = outboundLinks linkAnalysis,
                                      ev_timestamp = clock store\<rparr>]\<rparr>))
                   else Inr v)))"

text \<open>\<^verbatim>\<open>note.frontMatter.links || []\<close>\<close>

definition links_or_empty :: "MarkdownNote \<Rightarrow> string list" where
  "links_or_empty note = (case fm_links (frontMatter note) of None \<Rightarrow> [] | Some ls \<Rightarrow> ls)"

text \<open>
  The loop of \<^verbatim>\<open>cleanupBacklinksForDeletedNote\<close> over the listed files, carrying the vault
  and \<^verbatim>\<open>affectedNotes\<close>.  A file whose load or save throws is skipped with a warning.
\<close>

fun cleanup_loop :: "NoteStore \<Rightarrow> string \<Rightarrow> string list \<Rightarrow> Vault \<times> string list \<Rightarrow> Vault \<times> string list" where
  "cleanup_loop store deletedUid [] (v, affectedNotes) = (v, affectedNotes)"
| "cleanup_loop store deletedUid (path # paths) (v, affectedNotes) =
     (case loadNote store v path of
        Inl error \<Rightarrow> cleanup_loop store deletedUid paths (v, affectedNotes)
      | Inr note \<Rightarrow>
          (let originalLinks = links_or_empty note;
               updatedLinks = filter (\<lambda>link. link \<noteq> deletedUid) originalLinks
           in if length originalLinks \<noteq> length updatedLinks
              then (case saveNote store v
                           (note\<lparr>frontMatter :=
                              updateFrontMatter_links store (frontMatter note) updatedLinks\<rparr>) of
                      Inl error \<Rightarrow> cleanup_loop store deletedUid paths (v, affectedNotes)
                    | Inr v' \<Rightarrow>
                        cleanup_loop store deletedUid paths
                          (v', affectedNotes @ [fm_id (frontMatter note)]))
              else cleanup_loop store deletedUid paths (v, affectedNotes)))"

definition cleanupBacklinksForDeletedNote :: "NoteStore \<Rightarrow> string \<Rightarrow> Vault \<Rightarrow> storage_error + Vault" where
  "cleanupBacklinksForDeletedNote store deletedUid v =
     (if io_fails store ListFiles [] then Inl BACKLINK_CLEANUP_ERROR
      else (case cleanup_loop store deletedUid (listing v) (v, []) of
              (v', affectedNotes) \<Rightarrow>
                if length affectedNotes > 0
                then Inr (v'\<lparr>emitted := emitted v' @
                            [\<lparr>ev_type = Remove, ev_targetUid = deletedUid,
                              ev_affectedNotes = affectedNotes,
                              ev_timestamp = clock store\<rparr>]\<rparr>)
                else Inr v'))"

subsection \<open>What the specification says about the two operations\<close>

text \<open>
  The UIDs of the listed notes that load, contain the deleted UID in their header links
  and can be saved, in listing order.
\<close>

definition spec_affected :: "NoteStore \<Rightarrow> string \<Rightarrow> Vault \<Rightarrow> string list \<Rightarrow> string list" where
  "spec_affected store deletedUid v paths =
     concat (map (\<lambda>path. case loadNote store v path of
                            Inl error \<Rightarrow> []
                          | Inr note \<Rightarrow>
                              if deletedUid \<in> set (links_or_empty note) \<and>
                                 \<not> io_fails store SaveNote path
                              then [fm_id (frontMatter note)] else []) paths)"

text \<open>A file that loads and saves without error.\<close>

definition reliable :: "NoteStore \<Rightarrow> string \<Rightarrow> bool" where
  "reliable store path = (\<not> io_fails store LoadNote path \<and> \<not> io_fails store SaveNote path)"

text \<open>
  A note loaded from a path and written back without the UID in its header links: the
  other links stay, in their order, and \<^verbatim>\<open>updated\<close> is refreshed.
\<close>

definition without_link :: "NoteStore \<Rightarrow> string \<Rightarrow> string \<Rightarrow> MarkdownNote \<Rightarrow> MarkdownNote" where
  "without_link store deletedUid path note =
     note\<lparr>filePath := path,
          frontMatter := (frontMatter note)
            \<lparr>fm_links := Some (filter (\<lambda>link. link \<noteq> deletedUid) (links_or_empty note)),
             fm_updated := Some (clock store)\<rparr>\<rparr>"

text \<open>
  What a listed path holds after the cleanup: the note without the UID when the file is
  reliable and the note's links contain the UID, and what it held before otherwise.
\<close>

definition cleaned_file ::
  "NoteStore \<Rightarrow> string \<Rightarrow> string \<Rightarrow> MarkdownNote option \<Rightarrow> MarkdownNote option" where
  "cleaned_file store deletedUid path file =
     (case file of
        None \<Rightarrow> None
      | Some note \<Rightarrow>
          if reliable store path \<and> deletedUid \<in> set (links_or_empty note)
          then Some (without_link store deletedUid path note)
          else Some note)"

text \<open>The files of the vault after the cleanup; a file that is not listed is not touched.\<close>

definition spec_cleaned :: "NoteStore \<Rightarrow> string \<Rightarrow> Vault \<Rightarrow> string \<Rightarrow> MarkdownNote option" where
  "spec_cleaned store deletedUid v path =
     (if path \<in> set (listing v) then cleaned_file store deletedUid path (files v path)
      else files v path)"

subsection \<open>Facts about the per-note sync\<close>

lemma scan_uid_Some:
  assumes "scan_uid fs uid ps = Some note"
  shows "\<exists>m. fs (filePath note) = Some m \<and> fm_id (frontMatter m) = uid \<and>
             note = m\<lparr>filePath := filePath note\<rparr>"
  using assms
proof (induction ps)
  case Nil
  then show ?case by simp
next
  case (Cons p ps)
  then show ?case by (auto split: option.splits if_splits)
qed

lemma scan_uid_id: "scan_uid fs uid ps = Some nt \<Longrightarrow> fm_id (frontMatter nt) = uid"
  by (induction ps) (auto split: option.splits if_splits)

lemma scan_uid_update:
  assumes "scan_uid fs uid ps = Some note" and "fm_id (frontMatter n') = uid"
  shows "scan_uid (fs(filePath note \<mapsto> n')) uid ps = Some (n'\<lparr>filePath := filePath note\<rparr>)"
  using assms(1)
proof (induction ps)
  case Nil
  then show ?case by simp
next
  case (Cons p ps)
  from scan_uid_Some[OF Cons.prems] obtain m where
    m: "fs (filePath note) = Some m" "fm_id (frontMatter m) = uid" by blast
  show ?case
  proof (cases "p = filePath note")
    case True
    then show ?thesis using assms(2) by simp
  next
    case False
    then have rest: "scan_uid fs uid ps = Some note"
      using Cons.prems by (auto split: option.splits if_splits)
    from Cons.IH[OF rest] False Cons.prems show ?thesis
      by (auto split: option.splits if_splits)
  qed
qed

lemma syncBacklinksForNote_found:
  assumes "findNoteByUid store uid v = Inr (Some note)"
    and "analyzeLinks store note (files v) = Inr analysis"
  shows "syncBacklinksForNote store uid v =
           (if fm_links (frontMatter note) \<noteq> Some (outboundLinks analysis)
            then (case saveNote store v
                         (note\<lparr>frontMatter :=
                            updateFrontMatter_links store (frontMatter note) (outboundLinks analysis)\<rparr>) of
                    Inl error \<Rightarrow> Inl BACKLINK_SYNC_ERROR
                  | Inr v' \<Rightarrow>
                      Inr (v'\<lparr>emitted := emitted v' @
                             [\<lparr>ev_type = Update, ev_targetUid = uid,
                               ev_affectedNotes = outboundLinks analysis,
                               ev_timestamp = clock store\<rparr>]\<rparr>))
            else Inr v)"
  using assms by (simp add: syncBacklinksForNote_def Let_def updateFrontMatter_links_def)

lemma findNoteByUid_scan:
  "findNoteByUid store uid v = Inr found \<Longrightarrow> scan_uid (files v) uid (listing v) = found"
  by (auto simp: findNoteByUid_def split: if_splits)

subsection \<open>Facts about the deletion cleanup\<close>

lemma length_filter_neq: "length (filter (\<lambda>l. l \<noteq> d) xs) \<noteq> length xs \<longleftrightarrow> d \<in> set xs"
proof (induction xs)
  case Nil
  then show ?case by simp
next
  case (Cons x xs)
  have "length (filter (\<lambda>l. l \<noteq> d) xs) < Suc (length xs)"
    by (simp add: less_Suc_eq_le)
  then have "length (filter (\<lambda>l. l \<noteq> d) xs) \<noteq> Suc (length xs)"
    by (rule less_imp_neq)
  then show ?case using Cons by auto
qed

lemma spec_affected_cong:
  assumes "\<forall>q\<in>set ps. files v1 q = files v q"
  shows "spec_affected store d v1 ps = spec_affected store d v ps"
proof -
  have "\<forall>q\<in>set ps. loadNote store v1 q = loadNote store v q"
    using assms by (simp add: loadNote_def)
  then show ?thesis
    unfolding spec_affected_def by (intro arg_cong[where f = concat] map_cong) auto
qed

lemma spec_affected_Cons:
  "spec_affected store d v (p # ps) = spec_affected store d v [p] @ spec_affected store d v ps"
  by (simp add: spec_affected_def)

lemma cleanup_loop_effect:
  assumes "distinct paths" and "cleanup_loop store d paths (v, aff) = (v', aff')"
  shows "aff' = aff @ spec_affected store d v paths \<and> emitted v' = emitted v \<and>
         listing v' = listing v \<and>
         (\<forall>p. files v' p =
                (if p \<in> set paths then cleaned_file store d p (files v p) else files v p))"
  using assms
proof (induction paths arbitrary: v aff)
  case Nil
  then show ?case by (simp add: spec_affected_def)
next
  case (Cons p ps)
  have dist: "distinct ps" and fresh: "p \<notin> set ps" using Cons.prems(1) by simp_all
  show ?case
  proof (cases "loadNote store v p")
    case (Inl e)
    then have run: "cleanup_loop store d ps (v, aff) = (v', aff')"
      using Cons.prems(2) by simp
    note IH = Cons.IH[OF dist run]
    have head: "spec_affected store d v [p] = []"
      using Inl by (simp add: spec_affected_def)
    have "cleaned_file store d p (files v p) = files v p"
      using Inl
      by (auto simp: loadNote_def cleaned_file_def reliable_def split: option.splits if_splits)
    then show ?thesis
      using IH head fresh spec_affected_Cons[of store d v p ps] by auto
  next
    case (Inr nt)
    then obtain m where m: "files v p = Some m" "nt = m\<lparr>filePath := p\<rparr>"
      and loads: "\<not> io_fails store LoadNote p"
      by (auto simp: loadNote_def split: option.splits if_splits)
    have links_m: "links_or_empty nt = links_or_empty m"
      using m by (simp add: links_or_empty_def)
    let ?upd = "filter (\<lambda>link. link \<noteq> d) (links_or_empty nt)"
    let ?note1 = "nt\<lparr>frontMatter := updateFrontMatter_links store (frontMatter nt) ?upd\<rparr>"
    have note1: "?note1 = without_link store d p m"
      using m links_m by (simp add: without_link_def updateFrontMatter_links_def)
    show ?thesis
    proof (cases "d \<in> set (links_or_empty nt)")
      case False
      then have run: "cleanup_loop store d ps (v, aff) = (v', aff')"
        using Cons.prems(2) Inr length_filter_neq[of d "links_or_empty nt"]
        by (simp add: Let_def)
      note IH = Cons.IH[OF dist run]
      have head: "spec_affected store d v [p] = []"
        using Inr False by (simp add: spec_affected_def)
      have "cleaned_file store d p (files v p) = files v p"
        using False links_m m by (simp add: cleaned_file_def)
      then show ?thesis
        using IH head fresh spec_affected_Cons[of store d v p ps] by auto
    next
      case True
      then have changed: "length (links_or_empty nt) \<noteq> length ?upd"
        using length_filter_neq[of d "links_or_empty nt"] by simp
      show ?thesis
      proof (cases "io_fails store SaveNote p")
        case fails: True
        then have "saveNote store v ?note1 = Inl FILE_ERROR"
          using m by (simp add: saveNote_def)
        then have run: "cleanup_loop store d ps (v, aff) = (v', aff')"
          using Cons.prems(2) Inr changed by (simp add: Let_def)
        note IH = Cons.IH[OF dist run]
        have head: "spec_affected store d v [p] = []"
          using Inr fails by (simp add: spec_affected_def)
        have "cleaned_file store d p (files v p) = files v p"
          using fails m by (simp add: cleaned_file_def reliable_def)
        then show ?thesis
          using IH head fresh spec_affected_Cons[of store d v p ps] by auto
      next
        case saves: False
        let ?v1 = "v\<lparr>files := (files v)(p \<mapsto> ?note1), saveNote_calls := saveNote_calls v @ [p]\<rparr>"
        have "saveNote store v ?note1 = Inr ?v1"
          using m saves by (simp add: saveNote_def)
        then have run: "cleanup_loop store d ps (?v1, aff @ [fm_id (frontMatter nt)]) = (v', aff')"
          using Cons.prems(2) Inr changed by (simp add: Let_def)
        note IH = Cons.IH[OF dist run]
        have head: "spec_affected store d v [p] = [fm_id (frontMatter nt)]"
          using Inr True saves by (simp add: spec_affected_def)
        have same: "spec_affected store d ?v1 ps = spec_affected store d v ps"
          using fresh by (intro spec_affected_cong) auto
        have cleaned: "cleaned_file store d p (files v p) = Some ?note1"
          using True links_m m loads saves note1 by (simp add: cleaned_file_def reliable_def)
        have "files v' q =
                (if q \<in> set (p # ps) then cleaned_file store d q (files v q) else files v q)" for q
        proof (cases "q = p")
          case True
          then show ?thesis using IH fresh cleaned by simp
        next
          case False
          then show ?thesis using IH by simp
        qed
        then show ?thesis
          using IH head same spec_affected_Cons[of store d v p ps] by simp
      qed
    qed
  qed
qed

subsection \<open>Claims about the backlink synchronizer\<close>

definition noteA :: MarkdownNote where
  "noteA =
     \<lparr>filePath = ''a.md'',
      frontMatter = \<lparr>fm_id = ''A'', fm_title = ''Note A'', fm_category = ''Resources'',
        fm_tags = [], fm_project = None, fm_created = ''2025-09-27T10:30:00Z'',
        fm_updated = Some ''2025-09-27T10:30:00Z'', fm_links = Some [''X'', ''Y'']\<rparr>,
      content = ''see [[Y]] and [[X]]''\<rparr>"

definition store0 :: NoteStore where
  "store0 =
     \<lparr>analyzeLinks = (\<lambda>nt fs. Inr \<lparr>outboundLinks = [''Y'', ''X''], inboundLinks = [],
                                     brokenLinks = []\<rparr>),
      io_fails = (\<lambda>operation target. False),
      clock = ''2025-10-01T08:00:00Z''\<rparr>"

definition vault0 :: Vault where
  "vault0 = \<lparr>files = [''a.md'' \<mapsto> noteA], listing = [''a.md''], saveNote_calls = [], emitted = []\<rparr>"

lemmas backlink_eval =
  syncBacklinksForNote_def findNoteByUid_def saveNote_def loadNote_def updateFrontMatter_links_def
  cleanupBacklinksForDeletedNote_def links_or_empty_def store0_def vault0_def noteA_def Let_def

text \<open>
  Claim C2, as stated: the file is written back only when the set of header links differs
  from the set of analysed outbound links.  The code compares the two lists in their JSON
  serialisation: a header listing X, Y and an analysis yielding Y, X are equal as sets,
  and the note is saved all the same.
\<close>

theorem syncBacklinksForNote_set_counterexample:
  "set (links_or_empty noteA) =
     set (outboundLinks (projr (analyzeLinks store0 noteA (files vault0)))) \<and>
   saveNote_calls (projr (syncBacklinksForNote store0 ''A'' vault0)) = [''a.md'']"
  by (simp add: backlink_eval insert_commute)

text \<open>
  Claim C2, amended: for every note N present in the vault, after
  \<^verbatim>\<open>syncBacklinksForNote(N.uid)\<close> completes successfully the header links of N are the
  list of outbound UIDs obtained by analysing N (so the two sets are equal), and the note
  file is written back exactly when the header's list and the analysed list differ as
  sequences: if the two lists are identical, nothing is written and the vault is unchanged.
\<close>

theorem syncBacklinksForNote_links:
  assumes "findNoteByUid store uid v = Inr (Some nt)"
    and "analyzeLinks store nt (files v) = Inr analysis"
    and "syncBacklinksForNote store uid v = Inr v'"
  shows "(\<exists>nt'. findNoteByUid store uid v' = Inr (Some nt') \<and>
            fm_links (frontMatter nt') = Some (outboundLinks analysis)) \<and>
         (fm_links (frontMatter nt) = Some (outboundLinks analysis) \<longrightarrow> v' = v) \<and>
         (fm_links (frontMatter nt) \<noteq> Some (outboundLinks analysis) \<longrightarrow>
            saveNote_calls v' = saveNote_calls v @ [filePath nt])"
proof (cases "fm_links (frontMatter nt) = Some (outboundLinks analysis)")
  case True
  then have "v' = v"
    using syncBacklinksForNote_found[OF assms(1,2)] assms(3) by simp
  then show ?thesis using True assms(1) by simp
next
  case False
  let ?nt1 = "nt\<lparr>frontMatter :=
                 updateFrontMatter_links store (frontMatter nt) (outboundLinks analysis)\<rparr>"
  let ?ev = "\<lparr>ev_type = Update, ev_targetUid = uid, ev_affectedNotes = outboundLinks analysis,
              ev_timestamp = clock store\<rparr>"
  have run: "(case saveNote store v ?nt1 of Inl error \<Rightarrow> Inl BACKLINK_SYNC_ERROR
              | Inr v1 \<Rightarrow> Inr (v1\<lparr>emitted := emitted v1 @ [?ev]\<rparr>)) = Inr v'"
    using syncBacklinksForNote_found[OF assms(1,2)] assms(3) False by simp
  then obtain v1 where v1: "saveNote store v ?nt1 = Inr v1" "v' = v1\<lparr>emitted := emitted v1 @ [?ev]\<rparr>"
    by (auto split: sum.splits)
  then have files': "files v' = (files v)(filePath nt \<mapsto> ?nt1)"
    and calls: "saveNote_calls v' = saveNote_calls v @ [filePath nt]"
    and listing': "listing v' = listing v"
    by (auto simp: saveNote_def split: if_splits)
  have nofail: "\<not> io_fails store FindNoteByUid uid"
    using assms(1) by (auto simp: findNoteByUid_def split: if_splits)
  have scan: "scan_uid (files v) uid (listing v) = Some nt"
    using assms(1) by (rule findNoteByUid_scan)
  have "fm_id (frontMatter ?nt1) = uid"
    using scan_uid_id[OF scan] by (simp add: updateFrontMatter_links_def)
  from scan_uid_update[OF scan this]
  have "findNoteByUid store uid v' = Inr (Some (?nt1\<lparr>filePath := filePath nt\<rparr>))"
    using nofail files' listing' by (simp add: findNoteByUid_def)
  moreover have "fm_links (frontMatter (?nt1\<lparr>filePath := filePath nt\<rparr>)) = Some (outboundLinks analysis)"
    by (simp add: updateFrontMatter_links_def)
  ultimately show ?thesis using False calls by blast
qed

theorem syncBacklinksForNote_links_witness:
  "findNoteByUid store0 ''A'' vault0 = Inr (Some noteA) \<and>
   analyzeLinks store0 noteA (files vault0) =
     Inr \<lparr>outboundLinks = [''Y'', ''X''], inboundLinks = [], brokenLinks = []\<rparr> \<and>
   (\<exists>v'. syncBacklinksForNote store0 ''A'' vault0 = Inr v' \<and>
      (\<exists>nt'. findNoteByUid store0 ''A'' v' = Inr (Some nt') \<and>
         fm_links (frontMatter nt') = Some [''Y'', ''X'']) \<and>
      saveNote_calls v' = [''a.md''])"
proof -
  let ?an = "\<lparr>outboundLinks = [''Y'', ''X''], inboundLinks = [], brokenLinks = []\<rparr>"
  have h1: "findNoteByUid store0 ''A'' vault0 = Inr (Some noteA)"
    by (simp add: backlink_eval)
  have h2: "analyzeLinks store0 noteA (files vault0) = Inr ?an"
    by (simp add: store0_def)
  have h3: "syncBacklinksForNote store0 ''A'' vault0 =
              Inr (projr (syncBacklinksForNote store0 ''A'' vault0))"
    by (simp add: backlink_eval)
  have h4: "fm_links (frontMatter noteA) \<noteq> Some (outboundLinks ?an)"
    by (simp add: noteA_def)
  have h5: "saveNote_calls vault0 = []" "filePath noteA = ''a.md''"
    by (simp_all add: vault0_def noteA_def)
  from syncBacklinksForNote_links[OF h1 h2 h3] h4 h5 h3 show ?thesis
    using h1 h2 by auto
qed

text \<open>
  Claim C5, as stated: exactly one \<^verbatim>\<open>remove\<close> event is emitted, also when no note
  contained the deleted UID.  The code emits the event only when at least one note was
  rewritten: with no note linking to D the vault and its event list are unchanged.
\<close>

theorem cleanupBacklinks_no_event_counterexample:
  "cleanupBacklinksForDeletedNote store0 ''D'' vault0 = Inr vault0 \<and> emitted vault0 = []"
  by (simp add: backlink_eval)

text \<open>
  Claim C5, amended: for every UID d, a call of \<^verbatim>\<open>cleanupBacklinksForDeletedNote(d)\<close>
  whose vault listing succeeds (each file listed once) removes d from the header links of
  every listed vault note that contains it and whose file loads and saves without error:
  such a note is written back with its other links in their order; every other file,
  also one that fails and is skipped, is as before.  The call emits exactly one
  \<^verbatim>\<open>backlinkSync\<close> event with type remove, target d and the UIDs of the rewritten notes
  when at least one note was rewritten, and no event when none was.
\<close>

theorem cleanupBacklinks_effect:
  assumes "\<not> io_fails store ListFiles []" and "distinct (listing v)"
  shows "\<exists>v'. cleanupBacklinksForDeletedNote store d v = Inr v' \<and>
           files v' = spec_cleaned store d v \<and>
           emitted v' = emitted v @
             (if spec_affected store d v (listing v) = [] then []
              else [\<lparr>ev_type = Remove, ev_targetUid = d,
                      ev_affectedNotes = spec_affected store d v (listing v),
                      ev_timestamp = clock store\<rparr>])"
proof -
  obtain v1 aff where run: "cleanup_loop store d (listing v) (v, []) = (v1, aff)"
    by (cases "cleanup_loop store d (listing v) (v, [])") auto
  note eff = cleanup_loop_effect[OF assms(2) run]
  let ?ev = "\<lparr>ev_type = Remove, ev_targetUid = d, ev_affectedNotes = aff,
              ev_timestamp = clock store\<rparr>"
  let ?v' = "if length aff > 0 then v1\<lparr>emitted := emitted v1 @ [?ev]\<rparr> else v1"
  have res: "cleanupBacklinksForDeletedNote store d v = Inr ?v'"
    using assms(1) run by (simp add: cleanupBacklinksForDeletedNote_def)
  have aff: "aff = spec_affected store d v (listing v)"
    using eff by simp
  have "files v1 = spec_cleaned store d v"
    using eff by (intro ext) (simp add: spec_cleaned_def)
  then have "files ?v' = spec_cleaned store d v"
    by simp
  moreover have "emitted ?v' = emitted v @ (if aff = [] then [] else [?ev])"
    using eff by auto
  ultimately show ?thesis
    using res unfolding aff by blast
qed

text \<open>
  Note A links to X and Y, note B links to A, and the file of note C, which links to X as
  well, cannot be saved.  The cleanup of X leaves A with the link to Y, and B and C as
  they are.
\<close>

definition noteB :: MarkdownNote where
  "noteB = noteA\<lparr>filePath := ''b.md'',
                  frontMatter := (frontMatter noteA)\<lparr>fm_id := ''B'', fm_links := Some [''A'']\<rparr>\<rparr>"

definition noteC :: MarkdownNote where
  "noteC = noteA\<lparr>filePath := ''c.md'',
                  frontMatter := (frontMatter noteA)\<lparr>fm_id := ''C'', fm_links := Some [''X'']\<rparr>\<rparr>"

definition vault1 :: Vault where
  "vault1 = vault0\<lparr>files := [''a.md'' \<mapsto> noteA, ''b.md'' \<mapsto> noteB, ''c.md'' \<mapsto> noteC],
                    listing := [''a.md'', ''b.md'', ''c.md'']\<rparr>"

definition store1 :: NoteStore where
  "store1 = store0\<lparr>io_fails := (\<lambda>operation target. operation = SaveNote \<and> target = ''c.md'')\<rparr>"

theorem cleanupBacklinks_effect_witness:
  "\<not> io_fails store1 ListFiles [] \<and> distinct (listing vault1) \<and>
   (\<exists>v'. cleanupBacklinksForDeletedNote store1 ''X'' vault1 = Inr v' \<and>
      files v' = spec_cleaned store1 ''X'' vault1 \<and>
      map_option links_or_empty (files v' ''a.md'') = Some [''Y''] \<and>
      files v' ''b.md'' = Some noteB \<and> files v' ''c.md'' = Some noteC \<and>
      emitted v' = [\<lparr>ev_type = Remove, ev_targetUid = ''X'', ev_affectedNotes = [''A''],
                      ev_timestamp = ''2025-10-01T08:00:00Z''\<rparr>])"
proof -
  have h1: "\<not> io_fails store1 ListFiles []"
    by (simp add: store1_def store0_def)
  have h2: "distinct (listing vault1)"
    by (simp add: vault1_def)
  have h3: "spec_affected store1 ''X'' vault1 (listing vault1) = [''A'']"
    by (simp add: spec_affected_def vault1_def store1_def noteB_def noteC_def backlink_eval)
  have h4: "map_option links_or_empty (spec_cleaned store1 ''X'' vault1 ''a.md'') = Some [''Y'']"
    "spec_cleaned store1 ''X'' vault1 ''b.md'' = Some noteB"
    "spec_cleaned store1 ''X'' vault1 ''c.md'' = Some noteC"
    by (simp_all add: spec_cleaned_def cleaned_file_def reliable_def without_link_def vault1_def
        store1_def noteB_def noteC_def backlink_eval)
  have h5: "emitted vault1 = []" "clock store1 = ''2025-10-01T08:00:00Z''"
    by (simp_all add: vault1_def vault0_def store1_def store0_def)
  from cleanupBacklinks_effect[OF h1 h2, of "''X''"] show ?thesis
    unfolding h3 using h1 h2 h4 h5 by auto
qed


section \<open>Tool registry (mcp-server tools)\<close>

datatype ErrorCode =
  MCP_INVALID_REQUEST | MCP_TOOL_ERROR | SCHEMA_VALIDATION_ERROR | TIMEOUT_ERROR | INTERNAL_ERROR

text \<open>
  A \<^verbatim>\<open>MemoryMcpError\<close>: its code and the two metadata fields the registry sets.  The
  message texts are not modelled.
\<close>

record MemoryMcpError =
  err_code :: ErrorCode
  err_validationErrors :: "string option"
  err_tool :: "string option"

datatype ToolName = search_memory | create_note

text \<open>
  Modelled from the spec: \<^verbatim>\<open>ToolNameSchema\<close> of \<^verbatim>\<open>schemas.js\<close>, which is not among the
  sources.  It accepts the names of the registered tools; \<^verbatim>\<open>toolMap\<close> is typed
  \<^verbatim>\<open>Record<ToolName, RegisteredTool>\<close>, so the names are exactly its two keys.
\<close>

definition ToolNameSchema_safeParse :: "string \<Rightarrow> ToolName option" where
  "ToolNameSchema_safeParse name =
     (if name = ''search_memory'' then Some search_memory
      else if name = ''create_note'' then Some create_note
      else None)"

text \<open>One invocation of a handler: it returns, throws, or does not settle in time.\<close>

datatype 'r attempt = Returns 'r | Throws MemoryMcpError | Hangs

text \<open>
  A tool definition.  The input schemas are Zod objects of \<^verbatim>\<open>schemas.js\<close>; here a schema
  is the function from the raw input to the validator's diagnostic message or the parsed
  input.  A handler may behave differently from one attempt to the next, so it takes the
  number of the attempt.
\<close>

record ('raw, 'inp, 'r) ToolDefinition =
  tool_name :: string
  tool_description :: string
  schema_parseAsync :: "'raw \<Rightarrow> string + 'inp"
  handler :: "'inp \<Rightarrow> nat \<Rightarrow> 'r attempt"

record ('raw, 'inp, 'r) ToolRegistry =
  searchMemoryDefinition :: "('raw, 'inp, 'r) ToolDefinition"
  createNoteDefinition :: "('raw, 'inp, 'r) ToolDefinition"

fun toolMap :: "('raw, 'inp, 'r) ToolRegistry \<Rightarrow> ToolName \<Rightarrow> ('raw, 'inp, 'r) ToolDefinition option" where
  "toolMap reg search_memory = Some (searchMemoryDefinition reg)"
| "toolMap reg create_note = Some (createNoteDefinition reg)"

text \<open>
  The effective policy: after the merge a field may be \<^verbatim>\<open>undefined\<close>.  The policies of
  the context and of the call may leave a field out or carry it as \<^verbatim>\<open>undefined\<close>.
\<close>

record ExecutionPolicy =
  timeoutMs :: "nat option"
  maxRetries :: "nat option"

record PartialPolicy =
  opt_timeoutMs :: "nat field"
  opt_maxRetries :: "nat field"

text \<open>
  Modelled from the spec: \<^verbatim>\<open>DEFAULT_EXECUTION_POLICY\<close> of \<^verbatim>\<open>execution-policy.js\<close>, which
  is not among the sources: \<^verbatim>\<open>policy.timeout_ms\<close> defaults to 5000 and
  \<^verbatim>\<open>policy.max_retries\<close> to 2.
\<close>

definition DEFAULT_EXECUTION_POLICY :: ExecutionPolicy where
  "DEFAULT_EXECUTION_POLICY = \<lparr>timeoutMs = Some 5000, maxRetries = Some 2\<rparr>"

text \<open>
  One step of \<^verbatim>\<open>{...DEFAULT_EXECUTION_POLICY, ...context.policy, ...overrides}\<close>: a
  property that \<open>over\<close> carries replaces the one merged so far, also when its value is
  \<^verbatim>\<open>undefined\<close>.
\<close>

definition merge_policy :: "ExecutionPolicy \<Rightarrow> PartialPolicy \<Rightarrow> ExecutionPolicy" where
  "merge_policy base over =
     \<lparr>timeoutMs = spread (timeoutMs base) (opt_timeoutMs over),
      maxRetries = spread (maxRetries base) (opt_maxRetries over)\<rparr>"

text \<open>What the execution leaves in the log, and each invocation of the handler.\<close>

datatype log_event =
  Tool_start string | Handler_called string nat | Tool_retry string nat
  | Tool_success string | Tool_failure string

definition timeout_error :: MemoryMcpError where
  "timeout_error = \<lparr>err_code = TIMEOUT_ERROR, err_validationErrors = None, err_tool = None\<rparr>"

text \<open>
  Modelled from the spec: \<^verbatim>\<open>with_execution_policy\<close> (\<^verbatim>\<open>withExecutionPolicy\<close> of
  \<^verbatim>\<open>execution-policy.js\<close>, which is not among the sources), for a timeout and a number
  of retries.  The handler is attempted up to \<^verbatim>\<open>max_retries + 1\<close> times; each
  attempt is bounded by the timeout and a timeout is wrapped as a timeout error (a timeout
  of 0 ms fails before the handler runs); a failure with attempts left calls
  \<^verbatim>\<open>on_retry(attempt, error)\<close>; the final failure propagates.  \<open>retries\<close> counts the
  attempts left after this one.
\<close>

fun with_execution_policy ::
  "string \<Rightarrow> (nat \<Rightarrow> 'r attempt) \<Rightarrow> nat \<Rightarrow> nat \<Rightarrow> nat \<Rightarrow> (MemoryMcpError + 'r) \<times> log_event list" where
  "with_execution_policy name run timeout 0 attempt_no =
     (if timeout = 0 then (Inl timeout_error, [])
      else (case run attempt_no of
              Returns r \<Rightarrow> (Inr r, [Handler_called name attempt_no])
            | Throws e \<Rightarrow> (Inl e, [Handler_called name attempt_no])
            | Hangs \<Rightarrow> (Inl timeout_error, [Handler_called name attempt_no])))"
| "with_execution_policy name run timeout (Suc retries) attempt_no =
     (if timeout = 0
      then (case with_execution_policy name run timeout retries (Suc attempt_no) of
              (outcome, entries) \<Rightarrow> (outcome, Tool_retry name attempt_no # entries))
      else (case run attempt_no of
              Returns r \<Rightarrow> (Inr r, [Handler_called name attempt_no])
            | Throws e \<Rightarrow>
                (case with_execution_policy name run timeout retries (Suc attempt_no) of
                   (outcome, entries) \<Rightarrow>
                     (outcome, Handler_called name attempt_no # Tool_retry name attempt_no # entries))
            | Hangs \<Rightarrow>
                (case with_execution_policy name run timeout retries (Suc attempt_no) of
                   (outcome, entries) \<Rightarrow>
                     (outcome, Handler_called name attempt_no # Tool_retry name attempt_no # entries))))"

text \<open>
  \<^verbatim>\<open>executeTool\<close>: the result (a thrown \<^verbatim>\<open>MemoryMcpError\<close> or the tool result) and the
  log.  The three early exits throw before anything is logged.  The imported function
  \<^verbatim>\<open>withExecutionPolicy\<close> is a parameter: it gets the merged policy, the name of the tool
  (for the \<^verbatim>\<open>onRetry\<close> callback) and the handler applied to the parsed input, and yields
  the outcome with the log entries of its invocations and retries.
\<close>

type_synonym 'r policy_runner =
  "ExecutionPolicy \<Rightarrow> string \<Rightarrow> (nat \<Rightarrow> 'r attempt) \<Rightarrow> (MemoryMcpError + 'r) \<times> log_event list"

definition executeTool ::
  "'r policy_runner \<Rightarrow> ('raw, 'inp, 'r) ToolRegistry \<Rightarrow> string \<Rightarrow> 'raw \<Rightarrow>
     PartialPolicy \<Rightarrow> PartialPolicy \<Rightarrow> (MemoryMcpError + 'r) \<times> log_event list" where
  "executeTool withExecutionPolicy reg name rawInput context_policy overrides =
     (case ToolNameSchema_safeParse name of
        None \<Rightarrow>
          (Inl \<lparr>err_code = MCP_INVALID_REQUEST, err_validationErrors = None, err_tool = None\<rparr>, [])
      | Some data \<Rightarrow>
          (case toolMap reg data of
             None \<Rightarrow>
               (Inl \<lparr>err_code = MCP_TOOL_ERROR, err_validationErrors = None, err_tool = None\<rparr>, [])
           | Some definition \<Rightarrow>
               (case schema_parseAsync definition rawInput of
                  Inl validation_message \<Rightarrow>
                    (Inl \<lparr>err_code = SCHEMA_VALIDATION_ERROR,
                           err_validationErrors = Some validation_message,
                           err_tool = Some (tool_name definition)\<rparr>, [])
                | Inr parsedInput \<Rightarrow>
                    (let policy = merge_policy (merge_policy DEFAULT_EXECUTION_POLICY context_policy)
                                    overrides
                     in (case withExecutionPolicy policy (tool_name definition)
                                 (handler definition parsedInput) of
                           (Inr result, entries) \<Rightarrow>
                             (Inr result,
                              Tool_start (tool_name definition) # entries @
                                [Tool_success (tool_name definition)])
                         | (Inl error, entries) \<Rightarrow>
                             (Inl error,
                              Tool_start (tool_name definition) # entries @
                                [Tool_failure (tool_name definition)]))))))"

subsection \<open>Registered names\<close>

text \<open>The definition registered under a name, if any.\<close>

definition registered_tool ::
  "('raw, 'inp, 'r) ToolRegistry \<Rightarrow> string \<Rightarrow> ('raw, 'inp, 'r) ToolDefinition option" where
  "registered_tool reg name =
     (case ToolNameSchema_safeParse name of None \<Rightarrow> None | Some data \<Rightarrow> toolMap reg data)"

text \<open>A registry whose search tool demands a non-empty query and fails twice before it answers.\<close>

definition registry0 :: "(string, string, string) ToolRegistry" where
  "registry0 =
     \<lparr>searchMemoryDefinition =
        \<lparr>tool_name = ''search_memory'', tool_description = ''search the vault'',
         schema_parseAsync = (\<lambda>raw. if raw = [] then Inl ''query: Required'' else Inr raw),
         handler = (\<lambda>input attempt_no.
            if attempt_no < 3
            then Throws \<lparr>err_code = MCP_TOOL_ERROR, err_validationErrors = None, err_tool = None\<rparr>
            else Returns input)\<rparr>,
      createNoteDefinition =
        \<lparr>tool_name = ''create_note'', tool_description = ''create a note'',
         schema_parseAsync = (\<lambda>raw. Inr raw),
         handler = (\<lambda>input attempt_no. Returns input)\<rparr>\<rparr>"

definition no_policy :: PartialPolicy where
  "no_policy = \<lparr>opt_timeoutMs = Absent, opt_maxRetries = Absent\<rparr>"

text \<open>
  An implementation of \<^verbatim>\<open>withExecutionPolicy\<close> for the examples: the runner of the
  specification, starting with attempt 1, which falls back to the defaults for a field
  that the merged policy leaves undefined.
\<close>

definition example_runner :: "'r policy_runner" where
  "example_runner policy name run =
     with_execution_policy name run (or_default (timeoutMs policy) 5000)
       (or_default (maxRetries policy) 2) 1"

lemma registered_tool_None_iff:
  "registered_tool reg name = None \<longleftrightarrow> ToolNameSchema_safeParse name = None"
proof (cases "ToolNameSchema_safeParse name")
  case None
  then show ?thesis by (simp add: registered_tool_def)
next
  case (Some data)
  then show ?thesis by (cases data) (simp_all add: registered_tool_def)
qed

lemma executeTool_unknown:
  "registered_tool reg name = None \<Longrightarrow>
     executeTool withExecutionPolicy reg name rawInput context_policy overrides =
       (Inl \<lparr>err_code = MCP_INVALID_REQUEST, err_validationErrors = None, err_tool = None\<rparr>, [])"
  by (simp add: registered_tool_None_iff executeTool_def)

lemma executeTool_invalid_input:
  assumes "registered_tool reg name = Some tool"
    and "schema_parseAsync tool rawInput = Inl validation_message"
  shows "executeTool withExecutionPolicy reg name rawInput context_policy overrides =
           (Inl \<lparr>err_code = SCHEMA_VALIDATION_ERROR,
                  err_validationErrors = Some validation_message,
                  err_tool = Some (tool_name tool)\<rparr>, [])"
  using assms by (auto simp: registered_tool_def executeTool_def split: option.splits)

text \<open>
  The log does record handler invocations and retries when the input is valid: the
  handler of \<open>registry0\<close> runs three times under the default policy.
\<close>

lemma executeTool_valid_input_logged:
  "executeTool example_runner registry0 ''search_memory'' ''fts5'' no_policy no_policy =
     (Inr ''fts5'',
      [Tool_start ''search_memory'',
       Handler_called ''search_memory'' 1, Tool_retry ''search_memory'' 1,
       Handler_called ''search_memory'' 2, Tool_retry ''search_memory'' 2,
       Handler_called ''search_memory'' 3, Tool_success ''search_memory''])"
  by (simp add: executeTool_def ToolNameSchema_safeParse_def registry0_def no_policy_def
      merge_policy_def or_default_def DEFAULT_EXECUTION_POLICY_def example_runner_def
      numeral_2_eq_2)

text \<open>
  Claim C7: when the requested name is not a registered tool, \<^verbatim>\<open>executeTool\<close> fails with
  InvalidRequest; when the name is registered but the raw input fails the tool's schema,
  it fails with SchemaValidationError carrying the validator's diagnostic; in both cases
  the error is surfaced at once: no handler invocation and no retry is logged, whatever
  \<^verbatim>\<open>withExecutionPolicy\<close> does and whatever the policies are.
\<close>

theorem executeTool_rejects_before_handler:
  "(registered_tool reg name = None \<longrightarrow>
      executeTool withExecutionPolicy reg name rawInput context_policy overrides =
        (Inl \<lparr>err_code = MCP_INVALID_REQUEST, err_validationErrors = None, err_tool = None\<rparr>, [])) \<and>
   (registered_tool reg name = Some tool \<and>
    schema_parseAsync tool rawInput = Inl validation_message \<longrightarrow>
      executeTool withExecutionPolicy reg name rawInput context_policy overrides =
        (Inl \<lparr>err_code = SCHEMA_VALIDATION_ERROR,
               err_validationErrors = Some validation_message,
               err_tool = Some (tool_name tool)\<rparr>, []))"
  using executeTool_unknown[of reg name withExecutionPolicy rawInput context_policy overrides]
    executeTool_invalid_input[of reg name tool rawInput validation_message
      withExecutionPolicy context_policy overrides]
  by blast

theorem executeTool_rejects_before_handler_witness:
  "registered_tool registry0 ''invalid_tool'' = None \<and>
   executeTool example_runner registry0 ''invalid_tool'' '''' no_policy no_policy =
     (Inl \<lparr>err_code = MCP_INVALID_REQUEST, err_validationErrors = None, err_tool = None\<rparr>, []) \<and>
   registered_tool registry0 ''search_memory'' = Some (searchMemoryDefinition registry0) \<and>
   schema_parseAsync (searchMemoryDefinition registry0) '''' = Inl ''query: Required'' \<and>
   executeTool example_runner registry0 ''search_memory'' '''' no_policy no_policy =
     (Inl \<lparr>err_code = SCHEMA_VALIDATION_ERROR, err_validationErrors = Some ''query: Required'',
            err_tool = Some ''search_memory''\<rparr>, [])"
proof -
  have h1: "registered_tool registry0 ''invalid_tool'' = None"
    by (simp add: registered_tool_def ToolNameSchema_safeParse_def)
  have h2: "registered_tool registry0 ''search_memory'' = Some (searchMemoryDefinition registry0)"
    by (simp add: registered_tool_def ToolNameSchema_safeParse_def)
  have h3: "schema_parseAsync (searchMemoryDefinition registry0) '''' = Inl ''query: Required''"
    by (simp add: registry0_def)
  have h4: "tool_name (searchMemoryDefinition registry0) = ''search_memory''"
    by (simp add: registry0_def)
  from executeTool_rejects_before_handler[where reg = registry0 and name = "''invalid_tool''"
      and rawInput = "''''" and context_policy = no_policy and overrides = no_policy
      and withExecutionPolicy = example_runner]
    executeTool_rejects_before_handler[where reg = registry0 and name = "''search_memory''"
      and tool = "searchMemoryDefinition registry0" and rawInput = "''''"
      and validation_message = "''query: Required''" and context_policy = no_policy
      and overrides = no_policy and withExecutionPolicy = example_runner]
  show ?thesis
    using h1 h2 h3 h4 by simp
qed


section \<open>Connected notes (LinkGraphManager.findConnectedNotes)\<close>

datatype direction = Outgoing | Incoming | Both

record LinkGraphNode =
  node_id :: string
  node_title :: string
  node_category :: string
  node_filePath :: string
  node_links :: "string list"
  node_score :: real
  node_depth :: nat

record ConnectedNotesOptions =
  opt_depth :: "nat option"
  opt_limit :: "nat option"
  opt_direction :: "direction option"

text \<open>\<^verbatim>\<open>getNodeInfo\<close>: the row of the note, or null when there is none or the query throws.\<close>

definition getNodeInfo :: "LinkGraphManager \<Rightarrow> string \<Rightarrow> NoteRow option" where
  "getNodeInfo g uid = (if stmt_throws g NodeInfoStmt uid then None else note_row g uid)"

text \<open>\<^verbatim>\<open>Array.from(new Set(xs))\<close>: the elements in the order of their first occurrence.\<close>

definition Set_from :: "'a list \<Rightarrow> 'a list" where
  "Set_from xs = foldl (\<lambda>seen x. if x \<in> set seen then seen else seen @ [x]) [] xs"

text \<open>
  \<^verbatim>\<open>getConnectedUids\<close>: when either query throws, the \<^verbatim>\<open>catch\<close> returns the empty list.
\<close>

definition getConnectedUids :: "LinkGraphManager \<Rightarrow> string \<Rightarrow> direction \<Rightarrow> string list" where
  "getConnectedUids g uid dir =
     (case (if dir = Outgoing \<or> dir = Both
            then map_sum id (map targetUid) (findOutboundLinks g uid 50) else Inr []) of
        Inl error \<Rightarrow> []
      | Inr outbound \<Rightarrow>
          (case (if dir = Incoming \<or> dir = Both
                 then map_sum id (map sourceUid) (findBacklinks g uid 50) else Inr []) of
             Inl error \<Rightarrow> []
           | Inr inbound \<Rightarrow> Set_from (outbound @ inbound)))"

definition make_node :: "NoteRow \<Rightarrow> real \<Rightarrow> nat \<Rightarrow> LinkGraphNode" where
  "make_node nodeInfo nodeScore d =
     \<lparr>node_id = row_uid nodeInfo, node_title = row_title nodeInfo,
      node_category = row_category nodeInfo, node_filePath = row_file_path nodeInfo,
      node_links = [], node_score = nodeScore, node_depth = d\<rparr>"

text \<open>
  The state of the traversal: \<^verbatim>\<open>visitedNodes\<close>, \<^verbatim>\<open>resultNodes\<close> (a \<^verbatim>\<open>Map\<close>, which keeps
  insertion order: an association list updated in place or extended at the end) and the
  queue of entries \<^verbatim>\<open>{uid, currentDepth, score}\<close>.
\<close>

type_synonym bfs_state =
  "string set \<times> (string \<times> LinkGraphNode) list \<times> (string \<times> nat \<times> real) list"

text \<open>The \<^verbatim>\<open>for\<close> loop over the connected UIDs of one dequeued entry.\<close>

fun visit :: "LinkGraphManager \<Rightarrow> nat \<Rightarrow> nat \<Rightarrow> real \<Rightarrow> string list \<Rightarrow> bfs_state \<Rightarrow> bfs_state" where
  "visit g depth currentDepth score [] st = st"
| "visit g depth currentDepth score (connectedUid # rest) (visitedNodes, resultNodes, queue) =
     (if connectedUid \<in> visitedNodes
      then visit g depth currentDepth score rest (visitedNodes, resultNodes, queue)
      else (case getNodeInfo g connectedUid of
              None \<Rightarrow>
                visit g depth currentDepth score rest
                  (insert connectedUid visitedNodes, resultNodes, queue)
            | Some nodeInfo \<Rightarrow>
                (let nodeScore = score * 0.7 ^ currentDepth
                 in visit g depth currentDepth score rest
                      (insert connectedUid visitedNodes,
                       AList.update connectedUid (make_node nodeInfo nodeScore (currentDepth + 1))
                         resultNodes,
                       if currentDepth + 1 < depth
                       then queue @ [(connectedUid, currentDepth + 1, nodeScore)]
                       else queue))))"

text \<open>The weight of a queue, which decreases with every iteration of the \<^verbatim>\<open>while\<close> loop.\<close>

definition queue_weight :: "nat \<Rightarrow> (string \<times> nat \<times> real) list \<Rightarrow> nat" where
  "queue_weight depth queue = sum_list (map (\<lambda>entry. 101 ^ (depth - fst (snd entry))) queue)"

lemma length_Set_from_aux:
  "length (foldl (\<lambda>seen x. if x \<in> set seen then seen else seen @ [x]) acc xs)
     \<le> length acc + length xs"
proof (induction xs arbitrary: acc)
  case Nil
  then show ?case by simp
next
  case (Cons x xs)
  show ?case using Cons[of "if x \<in> set acc then acc else acc @ [x]"] by (simp split: if_splits)
qed

lemma length_Set_from: "length (Set_from xs) \<le> length xs"
  using length_Set_from_aux[of "[]" xs] by (simp add: Set_from_def)

lemma length_getConnectedUids: "length (getConnectedUids g uid dir) \<le> 100"
proof -
  let ?O = "if dir = Outgoing \<or> dir = Both
            then map_sum id (map targetUid) (findOutboundLinks g uid 50) else Inr []"
  let ?I = "if dir = Incoming \<or> dir = Both
            then map_sum id (map sourceUid) (findBacklinks g uid 50) else Inr []"
  have o: "length xs \<le> 50" if "?O = Inr xs" for xs
    using that
    by (cases "findOutboundLinks g uid 50") (auto simp: findOutboundLinks_def split: if_splits)
  have i: "length xs \<le> 50" if "?I = Inr xs" for xs
    using that
    by (cases "findBacklinks g uid 50") (auto simp: findBacklinks_def split: if_splits)
  show ?thesis
  proof (cases ?O)
    case (Inl e)
    then show ?thesis by (simp add: getConnectedUids_def)
  next
    case out: (Inr outbound)
    show ?thesis
    proof (cases ?I)
      case (Inl e)
      then show ?thesis using out by (simp add: getConnectedUids_def)
    next
      case inb: (Inr inbound)
      have "length (Set_from (outbound @ inbound)) \<le> length (outbound @ inbound)"
        by (rule length_Set_from)
      also have "\<dots> \<le> 100"
        using o[OF out] i[OF inb] by simp
      finally show ?thesis
        using out inb by (simp add: getConnectedUids_def)
    qed
  qed
qed

text \<open>What the loop pushes: at most one entry per connected UID, one level deeper.\<close>

lemma visit_queue:
  "\<exists>pushed. snd (snd (visit g depth d s cs (vis, res, q))) = q @ pushed \<and>
            length pushed \<le> length cs \<and>
            (\<forall>e\<in>set pushed. fst (snd e) = Suc d \<and> Suc d < depth)"
proof (induction cs arbitrary: vis res q)
  case Nil
  then show ?case by simp
next
  case (Cons c cs)
  show ?case
  proof (cases "c \<in> vis")
    case True
    with Cons[of vis res q] show ?thesis by auto
  next
    case False
    show ?thesis
    proof (cases "getNodeInfo g c")
      case None
      with False Cons[of "insert c vis" res q] show ?thesis by auto
    next
      case (Some info)
      let ?res = "AList.update c (make_node info (s * 0.7 ^ d) (d + 1)) res"
      show ?thesis
      proof (cases "d + 1 < depth")
        case True
        from Cons[of "insert c vis" ?res "q @ [(c, d + 1, s * 0.7 ^ d)]"]
        obtain pushed where
          p: "snd (snd (visit g depth d s cs (insert c vis, ?res, q @ [(c, d + 1, s * 0.7 ^ d)]))) =
                (q @ [(c, d + 1, s * 0.7 ^ d)]) @ pushed"
            "length pushed \<le> length cs"
            "\<forall>e\<in>set pushed. fst (snd e) = Suc d \<and> Suc d < depth"
          by blast
        show ?thesis
          using False Some True p
          by (intro exI[of _ "(c, d + 1, s * 0.7 ^ d) # pushed"]) (simp add: Let_def)
      next
        case nopush: False
        with False Some Cons[of "insert c vis" ?res q] show ?thesis
          by (auto simp: Let_def)
      qed
    qed
  qed
qed

lemma queue_weight_append:
  "queue_weight depth (q @ p) = queue_weight depth q + queue_weight depth p"
  by (simp add: queue_weight_def)

lemma queue_weight_pushed:
  assumes "\<forall>e\<in>set p. fst (snd e) = Suc d"
  shows "queue_weight depth p = length p * 101 ^ (depth - Suc d)"
  using assms by (induction p) (simp_all add: queue_weight_def)

lemma visit_decreases:
  assumes "d < depth"
  shows "queue_weight depth (snd (snd (visit g depth d s (getConnectedUids g uid dir) (vis, res, q))))
           < queue_weight depth ((uid, d, s) # q)"
proof -
  obtain pushed where
    p: "snd (snd (visit g depth d s (getConnectedUids g uid dir) (vis, res, q))) = q @ pushed"
       "length pushed \<le> length (getConnectedUids g uid dir)"
       "\<forall>e\<in>set pushed. fst (snd e) = Suc d \<and> Suc d < depth"
    using visit_queue[of g depth d s "getConnectedUids g uid dir" vis res q] by blast
  have len: "length pushed \<le> 100"
    using p(2) length_getConnectedUids[of g uid dir] by simp
  have "queue_weight depth pushed = length pushed * 101 ^ (depth - Suc d)"
    using p(3) by (intro queue_weight_pushed) simp
  also have "\<dots> \<le> 100 * 101 ^ (depth - Suc d)"
    using len by simp
  also have "\<dots> < 101 * 101 ^ (depth - Suc d)"
    by simp
  also have "\<dots> = 101 ^ (depth - d)"
    using assms by (simp add: Suc_diff_Suc flip: power_Suc)
  finally have "queue_weight depth pushed < 101 ^ (depth - d)" .
  then show ?thesis
    unfolding p(1) queue_weight_append by (simp add: queue_weight_def)
qed

text \<open>
  The \<^verbatim>\<open>while\<close> loop: it ends when the queue is empty or \<^verbatim>\<open>resultNodes\<close> has reached
  the limit; an entry at the depth bound is dropped (\<^verbatim>\<open>continue\<close>).
\<close>

function bfs ::
  "LinkGraphManager \<Rightarrow> direction \<Rightarrow> nat \<Rightarrow> nat \<Rightarrow> bfs_state \<Rightarrow> (string \<times> LinkGraphNode) list" where
  "bfs g dir depth limit (visitedNodes, resultNodes, []) = resultNodes"
| "bfs g dir depth limit (visitedNodes, resultNodes, (uid, currentDepth, score) # queue) =
     (if \<not> length resultNodes < limit then resultNodes
      else if currentDepth \<ge> depth
           then bfs g dir depth limit (visitedNodes, resultNodes, queue)
           else bfs g dir depth limit
                  (visit g depth currentDepth score (getConnectedUids g uid dir)
                     (visitedNodes, resultNodes, queue)))"
  by pat_completeness auto
termination
proof (relation "measure (\<lambda>(g, dir, depth, limit, st). queue_weight depth (snd (snd st)))")
  show "wf (measure (\<lambda>(g, dir, depth, limit, st). queue_weight depth (snd (snd st))))"
    by simp
next
  fix g :: LinkGraphManager and dir :: direction and depth limit :: nat
    and visitedNodes :: "string set" and resultNodes :: "(string \<times> LinkGraphNode) list"
    and uid :: string and currentDepth :: nat and score :: real
    and queue :: "(string \<times> nat \<times> real) list"
  show "((g, dir, depth, limit, visitedNodes, resultNodes, queue),
         (g, dir, depth, limit, visitedNodes, resultNodes, (uid, currentDepth, score) # queue))
        \<in> measure (\<lambda>(g, dir, depth, limit, st). queue_weight depth (snd (snd st)))"
    by (simp add: queue_weight_def)
next
  fix g :: LinkGraphManager and dir :: direction and depth limit :: nat
    and visitedNodes :: "string set" and resultNodes :: "(string \<times> LinkGraphNode) list"
    and uid :: string and currentDepth :: nat and score :: real
    and queue :: "(string \<times> nat \<times> real) list"
  assume "\<not> depth \<le> currentDepth"
  then have "currentDepth < depth" by simp
  from visit_decreases[OF this, of g score uid dir visitedNodes resultNodes queue]
  show "((g, dir, depth, limit,
          visit g depth currentDepth score (getConnectedUids g uid dir)
            (visitedNodes, resultNodes, queue)),
         (g, dir, depth, limit, visitedNodes, resultNodes, (uid, currentDepth, score) # queue))
        \<in> measure (\<lambda>(g, dir, depth, limit, st). queue_weight depth (snd (snd st)))"
    by simp
qed

declare bfs.simps [simp del]

text \<open>
  \<^verbatim>\<open>findConnectedNotes\<close>.  The inner queries catch their own errors, so nothing reaches
  the outer \<^verbatim>\<open>catch\<close>.  The scores are positive, so \<^verbatim>\<open>score || 0\<close> is the score.
\<close>

definition findConnectedNotes ::
  "LinkGraphManager \<Rightarrow> string \<Rightarrow> ConnectedNotesOptions \<Rightarrow> index_error + LinkGraphNode list" where
  "findConnectedNotes g startUid options =
     (let depth = or_default (opt_depth options) 2;
          limit = or_default (opt_limit options) 100;
          dir = or_default (opt_direction options) Both;
          resultNodes = bfs g dir depth limit ({startUid}, [], [(startUid, 0, 1.0)])
      in Inr (take limit (sort_by (\<lambda>a b. node_score b - node_score a) (map snd resultNodes))))"

subsection \<open>Basic facts about the traversal\<close>

lemma bfs_limit_reached:
  "\<not> length res < limit \<Longrightarrow> bfs g dir depth limit (vis, res, q) = res"
  by (cases q) (auto simp: bfs.simps)

lemma bfs_drop:
  "depth \<le> d \<Longrightarrow>
     bfs g dir depth limit (vis, res, (uid, d, s) # q) = bfs g dir depth limit (vis, res, q)"
  by (cases "length res < limit") (simp_all add: bfs.simps bfs_limit_reached)

lemma bfs_expand:
  "length res < limit \<Longrightarrow> d < depth \<Longrightarrow>
     bfs g dir depth limit (vis, res, (uid, d, s) # q) =
       bfs g dir depth limit (visit g depth d s (getConnectedUids g uid dir) (vis, res, q))"
  by (simp add: bfs.simps)

lemma bfs_skip:
  "\<forall>e\<in>set skipped. depth \<le> fst (snd e) \<Longrightarrow>
     bfs g dir depth limit (vis, res, skipped @ q) = bfs g dir depth limit (vis, res, q)"
proof (induction skipped)
  case Nil
  then show ?case by simp
next
  case (Cons e skipped)
  obtain uid d s where e: "e = (uid, d, s)" by (cases e) auto
  with Cons show ?case by (simp add: bfs_drop)
qed

lemma bfs_nothing_to_expand:
  "\<forall>e\<in>set q. depth \<le> fst (snd e) \<Longrightarrow> bfs g dir depth limit (vis, res, q) = res"
  using bfs_skip[of q depth g dir limit vis res "[]"] by (simp add: bfs.simps)

lemma depth_0_returns_nothing:
  "findConnectedNotes g startUid \<lparr>opt_depth = Some 0, opt_limit = limit_opt, opt_direction = dir_opt\<rparr> = Inr []"
  by (simp add: findConnectedNotes_def or_default_def bfs_nothing_to_expand sort_by_def)

text \<open>Three indexed notes in a chain: a links to b, b links to c.\<close>

definition link_row :: "string \<Rightarrow> string \<Rightarrow> LinkRelation" where
  "link_row a b =
     \<lparr>sourceUid = a, targetUid = b, linkType = ''internal'', strength = 1,
      createdAt = ''2025-09-27T10:30:00Z'', lastSeenAt = ''2025-09-27T10:30:00Z''\<rparr>"

definition chain_graph :: LinkGraphManager where
  "chain_graph =
     \<lparr>backlink_rows = (\<lambda>uid. if uid = ''b'' then [link_row ''a'' ''b'']
                              else if uid = ''c'' then [link_row ''b'' ''c''] else []),
      outbound_rows = (\<lambda>uid. if uid = ''a'' then [link_row ''a'' ''b'']
                              else if uid = ''b'' then [link_row ''b'' ''c''] else []),
      note_row = (\<lambda>uid. if uid \<in> set [''a'', ''b'', ''c'']
         then Some \<lparr>row_uid = uid, row_title = uid, row_category = ''Resources'',
                    row_file_path = uid @ ''.md''\<rparr> else None),
      stmt_throws = (\<lambda>stmt uid. False)\<rparr>"

lemmas connected_eval =
  findConnectedNotes_def or_default_def bfs_expand bfs_drop bfs_limit_reached bfs.simps(1)
  getConnectedUids_def findOutboundLinks_def findBacklinks_def Set_from_def getNodeInfo_def
  make_node_def sort_by_def chain_graph_def link_row_def Let_def

text \<open>
  From a, depth 1 reaches b and depth 2 reaches b and then c, scored 1 and 0.7; the start
  node is in neither result.
\<close>

lemma findConnectedNotes_chain_depth_1:
  "map (\<lambda>n. (node_id n, node_score n, node_depth n))
     (projr (findConnectedNotes chain_graph ''a''
        \<lparr>opt_depth = Some 1, opt_limit = None, opt_direction = None\<rparr>)) = [(''b'', 1, 1)]"
  by (simp add: connected_eval)

lemma findConnectedNotes_chain_depth_2:
  "map (\<lambda>n. (node_id n, node_score n, node_depth n))
     (projr (findConnectedNotes chain_graph ''a''
        \<lparr>opt_depth = Some 2, opt_limit = None, opt_direction = None\<rparr>)) =
     [(''b'', 1, 1), (''c'', 7 / 10, 2)]"
  by (simp add: connected_eval)

text \<open>
  Claim C4, as stated: with depth 0 the traversal returns exactly the start node, with
  score 1.0 and depth 0.  The start node is marked as visited and is never put into the
  result; with depth 0 its queue entry is dropped and the result is empty, also for a
  start node that is in the index and has links.
\<close>

theorem findConnectedNotes_depth_0_counterexample:
  "getNodeInfo chain_graph ''a'' \<noteq> None \<and>
   findConnectedNotes chain_graph ''a''
     \<lparr>opt_depth = Some 0, opt_limit = None, opt_direction = None\<rparr> = Inr []"
  by (simp add: depth_0_returns_nothing getNodeInfo_def chain_graph_def)

text \<open>
  Claim C4, amended: for every start node, calling the connected-notes traversal with
  depth 0 returns no node at all; the start node itself is never part of the result.
\<close>

theorem findConnectedNotes_depth_0_empty:
  "findConnectedNotes g startUid \<lparr>opt_depth = Some 0, opt_limit = limit_opt, opt_direction = dir_opt\<rparr> = Inr []"
  by (simp add: findConnectedNotes_def or_default_def bfs_nothing_to_expand sort_by_def)

subsection \<open>Scores along the traversal\<close>

text \<open>The score of a queue entry of a given depth: 1 at the start, times 0.7^d per level.\<close>

fun queue_score :: "nat \<Rightarrow> real" where
  "queue_score 0 = 1"
| "queue_score (Suc d) = queue_score d * 0.7 ^ d"

lemma queue_score_pos: "0 < queue_score d"
  by (induction d) simp_all

lemma queue_score_Suc_le: "queue_score (Suc d) \<le> queue_score d"
proof -
  have "(0.7::real) ^ d \<le> 1" by (simp add: power_le_one)
  then have "queue_score d * 0.7 ^ d \<le> queue_score d * 1"
    using queue_score_pos[of d] by (intro mult_left_mono) simp_all
  then show ?thesis by simp
qed

lemma queue_score_antimono: "d \<le> d' \<Longrightarrow> queue_score d' \<le> queue_score d"
  by (rule lift_Suc_antimono_le[of queue_score]) (simp_all add: queue_score_Suc_le del: queue_score.simps)

text \<open>The connected UIDs that the loop puts into the result: not yet visited, and indexed.\<close>

fun discovered :: "LinkGraphManager \<Rightarrow> string list \<Rightarrow> string set \<Rightarrow> string list" where
  "discovered g [] vis = []"
| "discovered g (c # cs) vis =
     (if c \<in> vis then discovered g cs vis
      else (case getNodeInfo g c of None \<Rightarrow> [] | Some info \<Rightarrow> [c]) @ discovered g cs (insert c vis))"

lemma update_fresh_key: "k \<notin> fst ` set al \<Longrightarrow> AList.update k v al = al @ [(k, v)]"
  by (induction al) auto

lemma discovered_subset: "set (discovered g cs vis) \<subseteq> set cs"
  by (induction cs arbitrary: vis) (auto split: option.splits)

lemma visit_eq:
  assumes "fst ` set res \<subseteq> vis"
  shows "visit g depth d s cs (vis, res, q) =
     (vis \<union> set cs,
      res @ map (\<lambda>c. (c, make_node (the (getNodeInfo g c)) (s * 0.7 ^ d) (Suc d)))
              (discovered g cs vis),
      q @ (if Suc d < depth then map (\<lambda>c. (c, Suc d, s * 0.7 ^ d)) (discovered g cs vis) else []))"
  using assms
proof (induction cs arbitrary: vis res q)
  case Nil
  then show ?case by simp
next
  case (Cons c cs)
  show ?case
  proof (cases "c \<in> vis")
    case True
    then have "vis \<union> set (c # cs) = vis \<union> set cs" by auto
    with True Cons.IH[OF Cons.prems, of q] show ?thesis by simp
  next
    case False
    have un: "insert c vis \<union> set cs = vis \<union> set (c # cs)" by auto
    show ?thesis
    proof (cases "getNodeInfo g c")
      case None
      have "fst ` set res \<subseteq> insert c vis" using Cons.prems by auto
      from Cons.IH[OF this, of q] False None un show ?thesis by simp
    next
      case (Some info)
      let ?node = "make_node info (s * 0.7 ^ d) (Suc d)"
      have fresh: "c \<notin> fst ` set res" using False Cons.prems by auto
      have keys: "fst ` set (res @ [(c, ?node)]) \<subseteq> insert c vis" using Cons.prems by auto
      show ?thesis
      proof (cases "Suc d < depth")
        case True
        with False Some un update_fresh_key[OF fresh, of ?node]
          Cons.IH[OF keys, of "q @ [(c, Suc d, s * 0.7 ^ d)]"]
        show ?thesis by (simp add: Let_def)
      next
        case nopush: False
        with False Some un update_fresh_key[OF fresh, of ?node] Cons.IH[OF keys, of q]
        show ?thesis by (simp add: Let_def)
      qed
    qed
  qed
qed


subsection \<open>One more level only appends to the result\<close>

lemma insert_by_append:
  "\<forall>y\<in>set ys. compare a y \<le> 0 \<Longrightarrow>
     insert_by compare a (xs @ ys) = insert_by compare a xs @ ys"
proof (induction xs)
  case Nil
  then show ?case by (cases ys) simp_all
next
  case (Cons x xs)
  then show ?case by simp
qed

lemma sort_by_append:
  assumes "\<forall>a\<in>set xs. \<forall>y\<in>set ys. compare a y \<le> 0"
  shows "sort_by compare (xs @ ys) = sort_by compare xs @ sort_by compare ys"
  using assms
proof (induction xs)
  case Nil
  then show ?case by (simp add: sort_by_def)
next
  case (Cons a xs)
  have "sort_by compare ((a # xs) @ ys) = insert_by compare a (sort_by compare (xs @ ys))"
    by (simp add: sort_by_def)
  also have "\<dots> = insert_by compare a (sort_by compare xs @ sort_by compare ys)"
    using Cons by simp
  also have "\<dots> = insert_by compare a (sort_by compare xs) @ sort_by compare ys"
    using Cons.prems by (intro insert_by_append) (simp add: set_sort_by)
  finally show ?case by (simp add: sort_by_def)
qed

text \<open>
  Every node the traversal adds to the result comes from a queue entry of depth \<open>d\<close> with
  \<open>m \<le> d < depth\<close>, so its score lies between the scores of these two levels.
\<close>

lemma bfs_appends:
  assumes "fst ` set res \<subseteq> vis"
    and "\<forall>e\<in>set q. snd (snd e) = queue_score (fst (snd e)) \<and> m \<le> fst (snd e)"
  shows "\<exists>new. bfs g dir depth limit (vis, res, q) = res @ new \<and>
           (\<forall>x\<in>set new. queue_score depth \<le> node_score (snd x) \<and>
                          node_score (snd x) \<le> queue_score (Suc m))"
  using assms
proof (induction g dir depth limit "(vis, res, q)" arbitrary: vis res q rule: bfs.induct)
  case (1 g dir depth limit visitedNodes resultNodes)
  then show ?case by (simp add: bfs.simps)
next
  case (2 g dir depth limit visitedNodes resultNodes uid d s queue)
  show ?case
  proof (cases "length resultNodes < limit")
    case False
    then show ?thesis by (simp add: bfs_limit_reached)
  next
    case True
    then have nn: "\<not> \<not> length resultNodes < limit" by simp
    show ?thesis
    proof (cases "depth \<le> d")
      case drop: True
      have "\<forall>e\<in>set queue. snd (snd e) = queue_score (fst (snd e)) \<and> m \<le> fst (snd e)"
        using "2.prems"(2) by simp
      from "2.hyps"(1)[OF nn drop "2.prems"(1) this] show ?thesis
        by (simp add: bfs_drop[OF drop])
    next
      case expand: False
      let ?cs = "getConnectedUids g uid dir"
      let ?disc = "discovered g ?cs visitedNodes"
      let ?new = "map (\<lambda>c. (c, make_node (the (getNodeInfo g c)) (s * 0.7 ^ d) (Suc d))) ?disc"
      let ?pushed = "if Suc d < depth then map (\<lambda>c. (c, Suc d, s * 0.7 ^ d)) ?disc else []"
      have v: "visit g depth d s ?cs (visitedNodes, resultNodes, queue) =
                 (visitedNodes \<union> set ?cs, resultNodes @ ?new, queue @ ?pushed)"
        using visit_eq[OF "2.prems"(1)] by simp
      have sd: "s = queue_score d" and md: "m \<le> d"
        using "2.prems"(2) by simp_all
      have score: "s * 0.7 ^ d = queue_score (Suc d)"
        using sd by simp
      have keys: "fst ` set (resultNodes @ ?new) \<subseteq> visitedNodes \<union> set ?cs"
        using "2.prems"(1) discovered_subset[of g ?cs visitedNodes] by (auto simp: image_iff)
      have entries: "\<forall>e\<in>set (queue @ ?pushed).
          snd (snd e) = queue_score (fst (snd e)) \<and> m \<le> fst (snd e)"
        using "2.prems"(2) score md by auto
      from "2.hyps"(2)[OF nn expand v keys entries]
      obtain new' where new': "bfs g dir depth limit (visit g depth d s ?cs (visitedNodes, resultNodes, queue))
            = (resultNodes @ ?new) @ new'"
          "\<forall>x\<in>set new'. queue_score depth \<le> node_score (snd x) \<and>
                          node_score (snd x) \<le> queue_score (Suc m)"
        unfolding v by auto
      have "Suc d \<le> depth" using expand by simp
      then have lo: "queue_score depth \<le> queue_score (Suc d)"
        by (rule queue_score_antimono)
      have hi: "queue_score (Suc d) \<le> queue_score (Suc m)"
        using md by (intro queue_score_antimono) simp
      have "\<forall>x\<in>set ?new. queue_score depth \<le> node_score (snd x) \<and>
                          node_score (snd x) \<le> queue_score (Suc m)"
        using lo hi score by (auto simp: make_node_def)
      then have "\<forall>x\<in>set (?new @ new'). queue_score depth \<le> node_score (snd x) \<and>
                          node_score (snd x) \<le> queue_score (Suc m)"
        using new'(2) by auto
      moreover have "bfs g dir depth limit (visitedNodes, resultNodes, (uid, d, s) # queue) =
          resultNodes @ (?new @ new')"
        using new'(1) True expand by (simp add: bfs_expand)
      ultimately show ?thesis by blast
    qed
  qed
qed

text \<open>
  The traversal with bound \<open>Suc k\<close> against the traversal with bound \<open>k\<close>.  Both expand
  the same entries of depth below \<open>k\<close> in the same order; the queue of the deeper run
  holds in addition entries of depth \<open>k\<close>, and since the queue is ordered by depth these
  are reached only when the shallower run has nothing left to expand.
\<close>

lemma bfs_simulation:
  assumes "fst ` set res \<subseteq> vis"
    and "\<forall>e\<in>set q'. snd (snd e) = queue_score (fst (snd e))"
    and "sorted (map (\<lambda>e. fst (snd e)) q')"
    and "\<forall>e\<in>set q'. fst (snd e) \<le> Suc (fst (snd (hd q')))"
    and "filter (\<lambda>e. fst (snd e) < k) q = filter (\<lambda>e. fst (snd e) < k) q'"
    and "depth' = Suc k"
  shows "\<exists>new. bfs g dir depth' limit (vis, res, q') = bfs g dir k limit (vis, res, q) @ new \<and>
           (\<forall>x\<in>set new. node_score (snd x) \<le> queue_score (Suc k))"
  using assms
proof (induction g dir depth' limit "(vis, res, q')" arbitrary: vis res q' q rule: bfs.induct)
  case (1 g dir depth' limit visitedNodes resultNodes)
  then have "\<forall>e\<in>set q. k \<le> fst (snd e)"
    by (auto simp: filter_empty_conv)
  then have "bfs g dir k limit (visitedNodes, resultNodes, q) = resultNodes"
    by (rule bfs_nothing_to_expand)
  then show ?case by (simp add: bfs.simps)
next
  case (2 g dir depth' limit visitedNodes resultNodes uid d s queue)
  let ?dep = "\<lambda>e::string \<times> nat \<times> real. fst (snd e)"
  note K = "2.prems"(1) and Qs = "2.prems"(2) and srt = "2.prems"(3) and bnd = "2.prems"(4)
    and rel = "2.prems"(5) and D = "2.prems"(6)
  have tail_ge: "\<forall>e\<in>set queue. d \<le> ?dep e"
    using srt by simp
  have tail_le: "\<forall>e\<in>set queue. ?dep e \<le> Suc d"
    using bnd by simp
  show ?case
  proof (cases "length resultNodes < limit")
    case False
    then show ?thesis by (simp add: bfs_limit_reached)
  next
    case True
    then have nn: "\<not> \<not> length resultNodes < limit" by simp
    show ?thesis
    proof (cases "depth' \<le> d")
      case drop: True
      have Qs1: "\<forall>e\<in>set queue. snd (snd e) = queue_score (?dep e)"
        using Qs by simp
      have srt1: "sorted (map ?dep queue)"
        using srt by simp
      have bnd1: "\<forall>e\<in>set queue. ?dep e \<le> Suc (?dep (hd queue))"
      proof (cases queue)
        case Nil
        then show ?thesis by simp
      next
        case (Cons e es)
        then have "d \<le> ?dep (hd queue)" using tail_ge by simp
        then show ?thesis using tail_le by fastforce
      qed
      have rel1: "filter (\<lambda>e. ?dep e < k) q = filter (\<lambda>e. ?dep e < k) queue"
        using rel drop D by simp
      from "2.hyps"(1)[OF nn drop K Qs1 srt1 bnd1 rel1 D] show ?thesis
        by (simp add: bfs_drop[OF drop])
    next
      case expand: False
      show ?thesis
      proof (cases "d < k")
        case False
        with expand D have dk: "d = k" by simp
        have "\<forall>e\<in>set ((uid, d, s) # queue). k \<le> ?dep e"
          using tail_ge dk by simp
        then have "filter (\<lambda>e. ?dep e < k) ((uid, d, s) # queue) = []"
          by (auto simp: filter_empty_conv)
        then have "\<forall>e\<in>set q. k \<le> ?dep e"
          using rel by (auto simp: filter_empty_conv)
        then have shallow: "bfs g dir k limit (visitedNodes, resultNodes, q) = resultNodes"
          by (rule bfs_nothing_to_expand)
        have "\<forall>e\<in>set ((uid, d, s) # queue). snd (snd e) = queue_score (?dep e) \<and> k \<le> ?dep e"
          using Qs tail_ge dk by simp
        from bfs_appends[OF K this, of g dir depth' limit] shallow show ?thesis
          by auto
      next
        case live: True
        let ?cs = "getConnectedUids g uid dir"
        let ?disc = "discovered g ?cs visitedNodes"
        let ?res1 = "resultNodes @
          map (\<lambda>c. (c, make_node (the (getNodeInfo g c)) (s * 0.7 ^ d) (Suc d))) ?disc"
        let ?entries = "map (\<lambda>c. (c, Suc d, s * 0.7 ^ d)) ?disc"
        let ?vis1 = "visitedNodes \<union> set ?cs"
        have "filter (\<lambda>e. ?dep e < k) q = (uid, d, s) # filter (\<lambda>e. ?dep e < k) queue"
          using rel live by simp
        then obtain us vs where q: "q = us @ (uid, d, s) # vs"
          and us: "\<forall>u\<in>set us. \<not> ?dep u < k"
          and vs: "filter (\<lambda>e. ?dep e < k) queue = filter (\<lambda>e. ?dep e < k) vs"
          unfolding filter_eq_Cons_iff by auto
        have "bfs g dir k limit (visitedNodes, resultNodes, q) =
                bfs g dir k limit (visitedNodes, resultNodes, (uid, d, s) # vs)"
          unfolding q using us by (intro bfs_skip) auto
        also have "\<dots> = bfs g dir k limit (visit g k d s ?cs (visitedNodes, resultNodes, vs))"
          using True live by (rule bfs_expand)
        also have "visit g k d s ?cs (visitedNodes, resultNodes, vs) =
                     (?vis1, ?res1, vs @ (if Suc d < k then ?entries else []))"
          using visit_eq[OF K] by simp
        finally have shallow: "bfs g dir k limit (visitedNodes, resultNodes, q) =
            bfs g dir k limit (?vis1, ?res1, vs @ (if Suc d < k then ?entries else []))" .
        have v: "visit g depth' d s ?cs (visitedNodes, resultNodes, queue) =
                   (?vis1, ?res1, queue @ ?entries)"
          using visit_eq[OF K, of g depth' d s ?cs queue] live D by simp
        have deep: "bfs g dir depth' limit (visitedNodes, resultNodes, (uid, d, s) # queue) =
            bfs g dir depth' limit (?vis1, ?res1, queue @ ?entries)"
          using True expand v by (simp add: bfs_expand)
        have K1: "fst ` set ?res1 \<subseteq> ?vis1"
          using K discovered_subset[of g ?cs visitedNodes] by (auto simp: image_iff)
        have "s = queue_score d" using Qs by simp
        then have Qs1: "\<forall>e\<in>set (queue @ ?entries). snd (snd e) = queue_score (?dep e)"
          using Qs by auto
        have srt1: "sorted (map ?dep (queue @ ?entries))"
          using srt tail_le by (auto simp: sorted_append sorted_map)
        have bnd1: "\<forall>e\<in>set (queue @ ?entries). ?dep e \<le> Suc (?dep (hd (queue @ ?entries)))"
        proof (cases "queue @ ?entries")
          case Nil
          then show ?thesis by simp
        next
          case (Cons e es)
          then have "e \<in> set (queue @ ?entries)" by simp
          then have "d \<le> ?dep e" using tail_ge by auto
          then have "d \<le> ?dep (hd (queue @ ?entries))" using Cons by simp
          moreover have "\<forall>e\<in>set (queue @ ?entries). ?dep e \<le> Suc d"
            using tail_le by auto
          ultimately show ?thesis by fastforce
        qed
        have rel1: "filter (\<lambda>e. ?dep e < k) (vs @ (if Suc d < k then ?entries else [])) =
                    filter (\<lambda>e. ?dep e < k) (queue @ ?entries)"
          using vs by (auto simp: filter_empty_conv)
        from "2.hyps"(2)[OF nn expand v K1 Qs1 srt1 bnd1 rel1 D]
        show ?thesis
          unfolding shallow deep .
      qed
    qed
  qed
qed

lemma bfs_one_more_level:
  "\<exists>new. bfs g dir (Suc k) limit ({startUid}, [], [(startUid, 0, 1)]) =
           bfs g dir k limit ({startUid}, [], [(startUid, 0, 1)]) @ new \<and>
         (\<forall>a\<in>set (bfs g dir k limit ({startUid}, [], [(startUid, 0, 1)])). \<forall>x\<in>set new.
            node_score (snd x) - node_score (snd a) \<le> 0)"
proof -
  let ?init = "({startUid}, [], [(startUid, 0::nat, 1::real)])"
  have entry: "\<forall>e\<in>set [(startUid, 0::nat, 1::real)].
      snd (snd e) = queue_score (fst (snd e)) \<and> 0 \<le> fst (snd e)"
    by simp
  obtain new where new: "bfs g dir (Suc k) limit ?init = bfs g dir k limit ?init @ new"
    "\<forall>x\<in>set new. node_score (snd x) \<le> queue_score (Suc k)"
    using bfs_simulation[of "[]" "{startUid}" "[(startUid, 0, 1)]" k "[(startUid, 0, 1)]"
        "Suc k" g dir limit]
    by auto
  obtain old where old: "bfs g dir k limit ?init = [] @ old"
    "\<forall>x\<in>set old. queue_score k \<le> node_score (snd x) \<and> node_score (snd x) \<le> queue_score (Suc 0)"
    using bfs_appends[of "[]" "{startUid}" "[(startUid, 0, 1)]" 0 g dir k limit] entry
    by auto
  have "queue_score (Suc k) \<le> queue_score k"
    by (rule queue_score_Suc_le)
  then have "\<forall>a\<in>set (bfs g dir k limit ?init). \<forall>x\<in>set new.
      node_score (snd x) - node_score (snd a) \<le> 0"
    using new(2) old by fastforce
  then show ?thesis using new(1) by blast
qed

text \<open>
  Claim C8: for every start node and every depth k \<ge> 1, with all other options equal, the
  nodes returned by the connected-notes traversal at depth k include the nodes returned at
  depth k - 1.  (The depths are written \<open>Suc k\<close> and \<open>k\<close>.)
\<close>

theorem findConnectedNotes_depth_monotone:
  "\<exists>shallow deep.
     findConnectedNotes g startUid
       \<lparr>opt_depth = Some k, opt_limit = limit_opt, opt_direction = dir_opt\<rparr> = Inr shallow \<and>
     findConnectedNotes g startUid
       \<lparr>opt_depth = Some (Suc k), opt_limit = limit_opt, opt_direction = dir_opt\<rparr> = Inr deep \<and>
     set shallow \<subseteq> set deep"
proof -
  let ?limit = "or_default limit_opt 100"
  let ?dir = "or_default dir_opt Both"
  let ?compare = "\<lambda>a b. node_score b - node_score a"
  let ?old = "bfs g ?dir k ?limit ({startUid}, [], [(startUid, 0, 1)])"
  obtain new where new: "bfs g ?dir (Suc k) ?limit ({startUid}, [], [(startUid, 0, 1)]) = ?old @ new"
    and below: "\<forall>a\<in>set ?old. \<forall>x\<in>set new. node_score (snd x) - node_score (snd a) \<le> 0"
    using bfs_one_more_level[of g ?dir k ?limit startUid] by blast
  have "sort_by ?compare (map snd (?old @ new)) =
          sort_by ?compare (map snd ?old) @ sort_by ?compare (map snd new)"
    unfolding map_append using below by (intro sort_by_append) auto
  then have "set (take ?limit (sort_by ?compare (map snd ?old))) \<subseteq>
             set (take ?limit (sort_by ?compare (map snd (?old @ new))))"
    by simp
  then show ?thesis
    unfolding findConnectedNotes_def Let_def using new by (simp add: or_default_def)
qed

end
